theory Spec2Isabelle
  imports Main "HOL-Library.Sublist" "HOL-Library.Char_ord" "HOL-Library.List_Lexorder"
begin

section \<open>Python string primitives used by fix-illumos-compat.py\<close>

text \<open>
  The script reads the target file as text and works on one Python \<open>str\<close>, the
  result of \<open>f.read()\<close> (decoded, with the line ends that text mode gives).
  A text is modelled as a \<^typ>\<open>string\<close>; a \<^typ>\<open>char\<close> stands for the code point
  of the same number, so the model covers the texts whose code points are below 256.
  The three characters that cannot be written inside a string literal get names.
\<close>

abbreviation dq :: string where "dq \<equiv> [CHR 0x22]"
abbreviation sq :: string where "sq \<equiv> [CHR 0x27]"
abbreviation nl :: string where "nl \<equiv> [CHR 0x0A]"

text \<open>\<open>old in content\<close>: substring test.\<close>

fun str_in :: "string \<Rightarrow> string \<Rightarrow> bool" where
  "str_in old [] = (old = [])"
| "str_in old (c # cs) = (prefix old (c # cs) \<or> str_in old cs)"

text \<open>\<open>content.count(sub)\<close>: the number of non-overlapping occurrences, scanning
  from the left; for the empty \<open>sub\<close> Python answers \<open>len(content) + 1\<close>.\<close>

fun count_str :: "string \<Rightarrow> string \<Rightarrow> nat" where
  "count_str [] sub = (if sub = [] then 1 else 0)"
| "count_str (c # cs) sub =
     (if sub = [] then Suc (count_str cs sub)
      else if prefix sub (c # cs) then Suc (count_str (drop (length sub) (c # cs)) sub)
      else count_str cs sub)"

text \<open>\<open>content.replace(old, new)\<close>: every non-overlapping occurrence, from the left;
  for the empty \<open>old\<close> Python puts \<open>new\<close> before every character and at the end.\<close>

fun replace_all :: "string \<Rightarrow> string \<Rightarrow> string \<Rightarrow> string" where
  "replace_all [] old new = (if old = [] then new else [])"
| "replace_all (c # cs) old new =
     (if old = [] then new @ c # replace_all cs old new
      else if prefix old (c # cs) then new @ replace_all (drop (length old) (c # cs)) old new
      else c # replace_all cs old new)"

text \<open>\<open>content.replace(old, new, 1)\<close>: the leftmost occurrence only.\<close>

fun replace_first :: "string \<Rightarrow> string \<Rightarrow> string \<Rightarrow> string" where
  "replace_first [] old new = (if old = [] then new else [])"
| "replace_first (c # cs) old new =
     (if prefix old (c # cs) then new @ drop (length old) (c # cs)
      else c # replace_first cs old new)"

text \<open>\<open>str(n)\<close> for the counts that the f-strings interpolate.\<close>

fun str_nat :: "nat \<Rightarrow> string" where
  "str_nat n =
     (if n < 10 then [''0123456789'' ! n]
      else str_nat (n div 10) @ [''0123456789'' ! (n mod 10)])"

subsection \<open>The two regular expressions\<close>

text \<open>
  \<open>\d\<close> and \<open>\w\<close> of Python's \<open>re\<close> on a \<open>str\<close> pattern are the Unicode classes: below
  256 the decimal digits are \<open>0\<close> to \<open>9\<close>, and the word characters are the ASCII letters and
  digits, the underscore, and the alphanumeric code points of the Latin-1 supplement.
\<close>

definition is_digit :: "char \<Rightarrow> bool" where
  "is_digit c = (let n = (of_char c :: nat) in 48 \<le> n \<and> n \<le> 57)"

definition is_word :: "char \<Rightarrow> bool" where
  "is_word c =
     (let n = (of_char c :: nat) in
        (48 \<le> n \<and> n \<le> 57) \<or> (65 \<le> n \<and> n \<le> 90) \<or> n = 95 \<or> (97 \<le> n \<and> n \<le> 122) \<or>
        n = 170 \<or> n = 178 \<or> n = 179 \<or> n = 181 \<or> n = 185 \<or> n = 186 \<or>
        (188 \<le> n \<and> n \<le> 190) \<or> (192 \<le> n \<and> n \<le> 214) \<or> (216 \<le> n \<and> n \<le> 246) \<or>
        248 \<le> n)"

text \<open>
  \<open>\(\((\w+)\+\+\)\)\<close> tried at the start of a text: the captured name, if it matches.
  The greedy \<open>\w+\<close> takes the whole run of word characters; giving some of them back
  never helps, as the next character would be a word character and not \<open>+\<close>.
  So the expression matches at the start of a text exactly when the text begins with
  \<open>((\<close>, a non-empty run of word characters and \<open>++))\<close> (lemmas
  \<open>match_plusplus_Some\<close> and \<open>match_plusplus_old_inc\<close> below).
  The match is \<open>length name + 6\<close> characters long.
\<close>

definition match_plusplus :: "string \<Rightarrow> string option" where
  "match_plusplus s =
     (if prefix ''(('' s then
        (let var = takeWhile is_word (drop 2 s); rest = dropWhile is_word (drop 2 s)
         in if var \<noteq> [] \<and> prefix ''++))'' rest then Some var else None)
      else None)"

text \<open>\<open>re.findall\<close> of that pattern: the captured names of the non-overlapping
  matches, from the left.\<close>

fun findall_plusplus :: "string \<Rightarrow> string list" where
  "findall_plusplus [] = []"
| "findall_plusplus (c # cs) =
     (case match_plusplus (c # cs) of
        Some var \<Rightarrow> var # findall_plusplus (drop (length var + 6) (c # cs))
      | None \<Rightarrow> findall_plusplus cs)"

text \<open>\<open>grep ":(\d+)"\<close> tried at the start of a text: the captured port digits, in the
  same way (lemmas \<open>match_port_Some\<close> and \<open>match_port_old_port\<close> below). The match
  is \<open>length port + 8\<close> characters long.\<close>

definition match_port :: "string \<Rightarrow> string option" where
  "match_port s =
     (if prefix (''grep '' @ dq @ '':'') s then
        (let port = takeWhile is_digit (drop 7 s); rest = dropWhile is_digit (drop 7 s)
         in if port \<noteq> [] \<and> prefix dq rest then Some port else None)
      else None)"

definition fix_port_grep :: "string \<Rightarrow> string" where
  "fix_port_grep port = ''grep '' @ dq @ ''[.]'' @ port @ ''[[:space:]]'' @ dq"

text \<open>\<open>re.sub(r'grep ":(\d+)"', fix_port_grep, content)\<close>.\<close>

fun re_sub_port :: "string \<Rightarrow> string" where
  "re_sub_port [] = []"
| "re_sub_port (c # cs) =
     (case match_port (c # cs) of
        Some port \<Rightarrow> fix_port_grep port @ re_sub_port (drop (length port + 8) (c # cs))
      | None \<Rightarrow> c # re_sub_port cs)"

section \<open>The patterns and replacements of the rules\<close>

definition old_1a :: string where
  "old_1a =
     ''    # Disk information'' @ nl @
     ''    if command -v format >/dev/null 2>&1; then'' @ nl @
     ''        echo '' @ dq @ ''=== Disk Devices ==='' @ dq @ '' | tee -a '' @ dq @ ''$OUTPUT_FILE'' @ dq @ nl @
     ''        echo | format 2>/dev/null | grep '' @ dq @ ''^[0-9]'' @ dq @ '' | tee -a '' @ dq @ ''$OUTPUT_FILE'' @ dq @ nl @
     ''        echo '' @ dq @ dq @ '' | tee -a '' @ dq @ ''$OUTPUT_FILE'' @ dq @ nl @
     ''    fi''"

definition new_1a :: string where
  "new_1a =
     ''    # Disk information (use iostat -En; interactive format hangs without a tty)'' @ nl @
     ''    if command -v iostat >/dev/null 2>&1; then'' @ nl @
     ''        echo '' @ dq @ ''=== Disk Devices ==='' @ dq @ '' | tee -a '' @ dq @ ''$OUTPUT_FILE'' @ dq @ nl @
     ''        iostat -En 2>/dev/null | tee -a '' @ dq @ ''$OUTPUT_FILE'' @ dq @ nl @
     ''        echo '' @ dq @ dq @ '' | tee -a '' @ dq @ ''$OUTPUT_FILE'' @ dq @ nl @
     ''    fi''"

definition old_1b :: string where
  "old_1b =
     ''        local disk_list=$(echo '' @ dq @ dq @ '' | format 2>/dev/null | grep '' @ dq @ ''^[[:space:]]*[0-9]'' @ dq @ '' | awk '' @ sq @ ''{print $2}'' @ sq @ '')''"

definition new_1b :: string where
  "new_1b =
     ''        local disk_list='' @ dq @ dq @ nl @
     ''        for _d in $(iostat -En 2>/dev/null | awk '' @ sq @ ''/^c[0-9]/{print $1}'' @ sq @ ''); do'' @ nl @
     ''            iostat -En '' @ dq @ ''$_d'' @ dq @ '' 2>/dev/null | grep -qi '' @ dq @ ''CD-ROM'' @ dq @ '' && continue'' @ nl @
     ''            disk_list='' @ dq @ ''$disk_list $_d'' @ dq @ nl @
     ''        done''"

definition old_1c :: string where
  "old_1c =
     ''        echo '' @ dq @ dq @ '' | format 2>/dev/null | egrep '' @ dq @ ''^[0-9]|c[0-9]'' @ dq @ '' | tee -a '' @ dq @ ''$OUTPUT_FILE'' @ dq"

definition new_1c :: string where
  "new_1c =
     ''        iostat -En 2>/dev/null | egrep '' @ dq @ ''^c[0-9]|Size:|Vendor:'' @ dq @ '' | tee -a '' @ dq @ ''$OUTPUT_FILE'' @ dq"

definition old_guard :: string where
  "old_guard =
     ''            [[ -c '' @ dq @ ''$disk_dev'' @ dq @ '' ]] || continue'' @ nl @
     ''            '' @ nl @
     ''            local disk_base=$(basename '' @ dq @ ''$disk_dev'' @ dq @ '' | sed '' @ sq @ ''s/s2$//'' @ sq @ '')''"

definition new_guard :: string where
  "new_guard =
     ''            [[ -c '' @ dq @ ''$disk_dev'' @ dq @ '' ]] || continue'' @ nl @
     nl @
     ''            local disk_base=$(basename '' @ dq @ ''$disk_dev'' @ dq @ '' | sed '' @ sq @ ''s/s2$//'' @ sq @ '')'' @ nl @
     ''            # Skip CD-ROM / non-disk devices'' @ nl @
     ''            iostat -En '' @ dq @ ''$disk_base'' @ dq @ '' 2>/dev/null | grep -qi '' @ dq @ ''CD-ROM'' @ dq @ '' && continue''"

definition old_sort :: string where
  "old_sort =
     ''du -sh /* 2>/dev/null | sort -rh | head -10''"

definition new_sort :: string where
  "new_sort =
     ''du -sk /* 2>/dev/null | sort -rn | head -10''"

definition old_egrep :: string where
  "old_egrep =
     ''egrep '' @ dq @ '':3306|:5432|:1521|:1433|:27017'' @ dq"

definition new_egrep :: string where
  "new_egrep =
     ''egrep '' @ dq @ ''[.]3306[[:space:]]|[.]5432[[:space:]]|[.]1521[[:space:]]|[.]1433[[:space:]]|[.]27017[[:space:]]'' @ dq"

definition old_echo0 :: string where
  "old_echo0 =
     ''|| echo '' @ dq @ ''0'' @ dq @ '')''"

definition new_true :: string where
  "new_true =
     ''|| true)''"

definition old_ant :: string where
  "old_ant =
     ''netstat -ant 2>/dev/null''"

definition new_ant :: string where
  "new_ant =
     ''netstat -an -f inet -P tcp 2>/dev/null''"

definition old_tuln :: string where
  "old_tuln =
     ''netstat -tuln 2>/dev/null''"

definition new_tuln :: string where
  "new_tuln =
     ''netstat -an -f inet 2>/dev/null''"

text \<open>The old and new text of rule 3 for one captured name.\<close>

definition old_inc :: "string \<Rightarrow> string" where
  "old_inc var = ''(('' @ var @ ''++))''"

definition new_inc :: "string \<Rightarrow> string" where
  "new_inc var = var @ ''=$(('' @ var @ '' + 1))''"

section \<open>The rules\<close>

text \<open>
  The rules stand in the script in this order: 1a (lines 34 to 53), 1b (55 to 66),
  1c (68 to 73), 2 (75 to 79), 3 (81 to 89), 4 (91 to 106), 5 (108 to 113), 6a and 6b
  (115 to 124), 7a (126 to 135), 7b (137 to 142).
\<close>

text \<open>The script keeps two variables through the rules: \<open>content\<close>, the buffer, and
  \<open>fixes\<close>, the list of report entries. Every rule is a step on that pair. The text of
  each report entry gets a name, \<open>label_1a\<close> to \<open>label_7b\<close>; the entries of the rules 2, 3,
  6a and 6b are f-strings that interpolate a count.\<close>

type_synonym state = "string \<times> string list"

definition label_1a :: string where
  "label_1a = ''1a: Replaced format with iostat -En in analyze_disk_solaris''"

fun rule_1a :: "state \<Rightarrow> state" where
  "rule_1a (content, fixes) =
     (if str_in old_1a content
      then (replace_first content old_1a new_1a,
            fixes @ [label_1a])
      else (content, fixes))"

definition label_1b :: string where
  "label_1b = ''1b: Replaced format disk_list with iostat -En + CD-ROM filter''"

fun rule_1b :: "state \<Rightarrow> state" where
  "rule_1b (content, fixes) =
     (if str_in old_1b content
      then (replace_first content old_1b new_1b,
            fixes @ [label_1b])
      else (content, fixes))"

definition label_1c :: string where
  "label_1c = ''1c: Replaced format in storage topology with iostat -En''"

fun rule_1c :: "state \<Rightarrow> state" where
  "rule_1c (content, fixes) =
     (if str_in old_1c content
      then (replace_first content old_1c new_1c,
            fixes @ [label_1c])
      else (content, fixes))"

definition label_2 :: "nat \<Rightarrow> string" where
  "label_2 count =
     ''2: Fixed || echo '' @ dq @ ''0'' @ dq @ '' -> || true ('' @ str_nat count @ '' instances)''"

fun rule_2 :: "state \<Rightarrow> state" where
  "rule_2 (content, fixes) =
     (let count = count_str content old_echo0
      in if count > 0
         then (replace_all content old_echo0 new_true, fixes @ [label_2 count])
         else (content, fixes))"

definition label_3 :: "string \<Rightarrow> nat \<Rightarrow> string" where
  "label_3 var n =
     ''3: Fixed (('' @ var @ ''++)) -> safe increment ('' @ str_nat n @ '' instances)''"

text \<open>The body of the \<open>for var in sorted(set(plusplus))\<close> loop, and the loop.\<close>

fun plusplus_step :: "string \<Rightarrow> state \<Rightarrow> state" where
  "plusplus_step var (content, fixes) =
     (let n = count_str content (old_inc var)
      in if n > 0
         then (replace_all content (old_inc var) (new_inc var), fixes @ [label_3 var n])
         else (content, fixes))"

fun plusplus_loop :: "string list \<Rightarrow> state \<Rightarrow> state" where
  "plusplus_loop [] st = st"
| "plusplus_loop (var # vars) st = plusplus_loop vars (plusplus_step var st)"

fun rule_3 :: "state \<Rightarrow> state" where
  "rule_3 (content, fixes) =
     (let plusplus = findall_plusplus content
      in plusplus_loop (sort (remdups plusplus)) (content, fixes))"

definition label_4 :: string where
  "label_4 = ''4: Added CD-ROM skip to partition alignment loop''"

fun rule_4 :: "state \<Rightarrow> state" where
  "rule_4 (content, fixes) =
     (if str_in old_guard content
      then (replace_all content old_guard new_guard,
            fixes @ [label_4])
      else (content, fixes))"

definition label_5 :: string where
  "label_5 = ''5: Replaced sort -rh -> sort -rn, du -sh -> du -sk''"

fun rule_5 :: "state \<Rightarrow> state" where
  "rule_5 (content, fixes) =
     (if str_in old_sort content
      then (replace_all content old_sort new_sort,
            fixes @ [label_5])
      else (content, fixes))"

definition label_6a :: "nat \<Rightarrow> string" where
  "label_6a n1 = ''6a: Fixed netstat -ant -> -an -f inet -P tcp ('' @ str_nat n1 @ '' instances)''"

fun rule_6a :: "state \<Rightarrow> state" where
  "rule_6a (content, fixes) =
     (let n1 = count_str content old_ant
      in if n1 \<noteq> 0
         then (replace_all content old_ant new_ant, fixes @ [label_6a n1])
         else (content, fixes))"

definition label_6b :: "nat \<Rightarrow> string" where
  "label_6b n2 = ''6b: Fixed netstat -tuln -> -an -f inet ('' @ str_nat n2 @ '' instances)''"

fun rule_6b :: "state \<Rightarrow> state" where
  "rule_6b (content, fixes) =
     (let n2 = count_str content old_tuln
      in if n2 \<noteq> 0
         then (replace_all content old_tuln new_tuln, fixes @ [label_6b n2])
         else (content, fixes))"

definition label_7a :: string where
  "label_7a = ''7a: Fixed grep :PORT -> grep [.]PORT for illumos netstat''"

fun rule_7a :: "state \<Rightarrow> state" where
  "rule_7a (content, fixes) =
     (let new_content = re_sub_port content
      in if new_content \<noteq> content
         then (new_content, fixes @ [label_7a])
         else (content, fixes))"

definition label_7b :: string where
  "label_7b = ''7b: Fixed egrep compound port pattern for illumos''"

fun rule_7b :: "state \<Rightarrow> state" where
  "rule_7b (content, fixes) =
     (if str_in old_egrep content
      then (replace_all content old_egrep new_egrep,
            fixes @ [label_7b])
      else (content, fixes))"

text \<open>The rules in the order of the script, from \<open>fixes = []\<close>.\<close>

definition patcher :: "string \<Rightarrow> state" where
  "patcher original =
     rule_7b (rule_7a (rule_6b (rule_6a (rule_5 (rule_4 (rule_3 (rule_2
       (rule_1c (rule_1b (rule_1a (original, [])))))))))))"

section \<open>The whole script: read, patch, write, report\<close>

text \<open>
  Lines 24 to 30 read the target, lines 144 to 154 write and report.
  What the operating system answers is part of the input: for every path, what
  \<open>open(path, "r").read()\<close> gives (the text, or the error it raises) and whether
  \<open>open(path, "w")\<close> with the write succeeds (\<open>None\<close>) or raises.
\<close>

datatype io_error = FileNotFoundError | PermissionError | IsADirectoryError
  | UnicodeDecodeError | OSError

record world =
  read_result :: "string \<Rightarrow> io_error + string"
  write_result :: "string \<Rightarrow> io_error option"

text \<open>
  \<open>exit_ok\<close> is exit status 0, reached by \<open>sys.exit(0)\<close> or by running off the end of
  the script; an exception that nothing catches ends the process with its traceback.
  A printed line is kept as the \<open>print\<close> call that made it:
  \<open>No_changes_needed\<close> is the fixed no-op message, \<open>Applied n target\<close> the summary line
  \<open>Applied n fix(es) to target:\<close> with the empty line after it, \<open>Fix_line f\<close> the line of one
  report entry, indented by two spaces.
\<close>

datatype exit_status = exit_ok | uncaught io_error

datatype printed = No_changes_needed | Applied nat string | Fix_line string

record outcome =
  files :: world
  stdout :: "printed list"
  status :: exit_status

definition target_of :: "string list \<Rightarrow> string" where
  "target_of argv = (if length argv > 1 then argv ! 1 else ''invoke-unix-forensics.sh'')"

definition write_file :: "world \<Rightarrow> string \<Rightarrow> string \<Rightarrow> world" where
  "write_file w path content = w\<lparr>read_result := (read_result w)(path := Inr content)\<rparr>"

definition main :: "string list \<Rightarrow> world \<Rightarrow> outcome" where
  "main argv w =
     (let target = target_of argv in
      case read_result w target of
        Inl e \<Rightarrow> \<lparr>files = w, stdout = [], status = uncaught e\<rparr>
      | Inr original \<Rightarrow>
          (let (content, fixes) = patcher original in
           if content = original
           then \<lparr>files = w, stdout = [No_changes_needed], status = exit_ok\<rparr>
           else (case write_result w target of
                   Some e \<Rightarrow> \<lparr>files = w, stdout = [], status = uncaught e\<rparr>
                 | None \<Rightarrow>
                     \<lparr>files = write_file w target content,
                      stdout = Applied (length fixes) target # map Fix_line fixes,
                      status = exit_ok\<rparr>)))"

section \<open>The rule list of the specification\<close>

text \<open>
  The specification describes the patcher as an ordered list of rules, each a tagged
  variant (replace a literal once, replace a literal everywhere, the increment rule, the
  port regular expression), folded over the buffer.
\<close>

datatype rule = Literal_once string string | Literal_all string string
  | Increment_all | Port_regex

fun apply_rule :: "rule \<Rightarrow> string \<Rightarrow> string" where
  "apply_rule (Literal_once old new) content = replace_first content old new"
| "apply_rule (Literal_all old new) content = replace_all content old new"
| "apply_rule Increment_all content =
     fold (\<lambda>var c. replace_all c (old_inc var) (new_inc var))
       (sort (remdups (findall_plusplus content))) content"
| "apply_rule Port_regex content = re_sub_port content"

definition declared_rules :: "rule list" where
  "declared_rules =
     [Literal_once old_1a new_1a, Literal_once old_1b new_1b, Literal_once old_1c new_1c,
      Literal_all old_echo0 new_true, Increment_all, Literal_all old_guard new_guard,
      Literal_all old_sort new_sort, Literal_all old_ant new_ant, Literal_all old_tuln new_tuln,
      Port_regex, Literal_all old_egrep new_egrep]"

section \<open>Which rules matched\<close>

text \<open>
  A rule matched when its guard held, that is when it appended to \<open>fixes\<close>. The run of
  the script goes through the eleven rules in order; \<open>rules_matched\<close> counts those whose
  guard held on the way.
\<close>

definition matched :: "(state \<Rightarrow> state) \<Rightarrow> state \<Rightarrow> bool" where
  "matched r st = (snd (r st) \<noteq> snd st)"

definition rule_steps :: "(state \<Rightarrow> state) list" where
  "rule_steps =
     [rule_1a, rule_1b, rule_1c, rule_2, rule_3, rule_4, rule_5, rule_6a, rule_6b,
      rule_7a, rule_7b]"

fun count_matched :: "(state \<Rightarrow> state) list \<Rightarrow> state \<Rightarrow> nat" where
  "count_matched [] st = 0"
| "count_matched (r # rs) st = (if matched r st then 1 else 0) + count_matched rs (r st)"

definition rules_matched :: "string \<Rightarrow> nat" where
  "rules_matched original = count_matched rule_steps (original, [])"

text \<open>The state in which rule 3 starts, and the entries that rule 3 appends.\<close>

definition before_rule_3 :: "string \<Rightarrow> state" where
  "before_rule_3 original = rule_2 (rule_1c (rule_1b (rule_1a (original, []))))"

definition entries_of :: "(state \<Rightarrow> state) \<Rightarrow> state \<Rightarrow> string list" where
  "entries_of r st = drop (length (snd st)) (snd (r st))"

section \<open>A potential that every replacement raises\<close>

text \<open>
  The number of the characters \<open>t\<close>, \<open>n\<close>, \<open>=\<close> and \<open>.\<close> in a text. Every replacement
  text of the script has more of them than the text it replaces, so a rule that fires
  raises this number and no later rule can bring the buffer back.
\<close>

definition is_mark :: "char \<Rightarrow> bool" where
  "is_mark c = (c = CHR ''t'' \<or> c = CHR ''n'' \<or> c = CHR ''='' \<or> c = CHR ''.'')"

definition marks :: "string \<Rightarrow> nat" where
  "marks s = length (filter is_mark s)"

text \<open>A step that appends entries exactly when it changes the buffer, and then raises
  the potential.\<close>

definition good_step :: "(state \<Rightarrow> state) \<Rightarrow> bool" where
  "good_step r =
     (\<forall>st. \<exists>es. snd (r st) = snd st @ es \<and>
        (if es = [] then fst (r st) = fst st else marks (fst st) < marks (fst (r st))))"

section \<open>Texts that cannot overlap\<close>

text \<open>
  Two texts agree when one is a prefix of the other. \<open>begins_in a q\<close> says that an
  occurrence of \<open>q\<close> can begin at a position of \<open>a\<close>, inside \<open>a\<close> or running over
  its end; two texts are apart when no occurrence of one can overlap an occurrence of the
  other. All three are decided by computation for the fixed texts of the script.
\<close>

fun agree :: "'a list \<Rightarrow> 'a list \<Rightarrow> bool" where
  "agree [] ys = True"
| "agree (x # xs) [] = True"
| "agree (x # xs) (y # ys) = (x = y \<and> agree xs ys)"

fun begins_in :: "'a list \<Rightarrow> 'a list \<Rightarrow> bool" where
  "begins_in [] q = False"
| "begins_in (x # a) q = (agree (x # a) q \<or> begins_in a q)"

definition apart :: "'a list \<Rightarrow> 'a list \<Rightarrow> bool" where
  "apart a b = (\<not> begins_in a b \<and> \<not> begins_in b a)"

text \<open>The text that the port expression matches for the captured digits \<open>port\<close>.\<close>

definition old_port :: "string \<Rightarrow> string" where
  "old_port port = ''grep '' @ dq @ '':'' @ port @ dq"

text \<open>\<open>sorted(set(plusplus))\<close>, the names that the loop of rule 3 goes through.\<close>

definition plusplus_names :: "string \<Rightarrow> string list" where
  "plusplus_names content = sort (remdups (findall_plusplus content))"

text \<open>
  Conditions on a fixed text \<open>x\<close>, decided by computation, under which \<open>x\<close> is apart
  from the idiom of rule 3 for every name, from the text that the port expression matches
  for every port, and from the replacement of rule 7a for every port.
\<close>

definition clear_of_inc :: "string \<Rightarrow> bool" where
  "clear_of_inc x =
     (x \<noteq> [] \<and> \<not> begins_in x ''(('' \<and> \<not> begins_in ''(('' x \<and> \<not> begins_in ''++))'' x \<and>
      dropWhile is_word x \<noteq> [] \<and> hd (dropWhile is_word x) \<noteq> CHR ''+'')"

definition clear_of_port :: "string \<Rightarrow> bool" where
  "clear_of_port x =
     (x \<noteq> [] \<and> \<not> begins_in x (''grep '' @ dq @ '':'') \<and>
      \<not> begins_in (''grep '' @ dq @ '':'') x \<and> \<not> is_digit (hd x) \<and> \<not> begins_in dq x)"

definition clear_of_new_port :: "string \<Rightarrow> bool" where
  "clear_of_new_port x =
     (x \<noteq> [] \<and> \<not> begins_in x (''grep '' @ dq @ ''['') \<and>
      \<not> begins_in (''grep '' @ dq @ ''[.]'') x \<and> \<not> is_digit (hd x) \<and>
      \<not> begins_in (''[[:space:]]'' @ dq) x)"

text \<open>The rules after rule 3, in one step.\<close>

definition rules_4_to_7b :: "state \<Rightarrow> state" where
  "rules_4_to_7b st = rule_7b (rule_7a (rule_6b (rule_6a (rule_5 (rule_4 st)))))"


section \<open>Facts about the string primitives\<close>

lemma str_in_sublist: "str_in old s = sublist old s"
  by (induction s) (auto simp: sublist_Cons_right)

lemma str_in_drop: "str_in old (drop n s) \<Longrightarrow> str_in old s"
  unfolding str_in_sublist by (meson sublist_drop sublist_order.order_trans)

lemma count_str_pos: "old \<noteq> [] \<Longrightarrow> (0 < count_str s old) = str_in old s"
proof (induction s old rule: count_str.induct)
  case (1 sub)
  then show ?case by simp
next
  case (2 c cs sub)
  show ?case
  proof (cases "prefix sub (c # cs)")
    case True
    with 2 show ?thesis by simp
  next
    case False
    with 2 show ?thesis by simp
  qed
qed

lemma count_str_zero: "old \<noteq> [] \<Longrightarrow> (count_str s old = 0) = (\<not> str_in old s)"
  using count_str_pos [of old s] by auto

lemma replace_all_absent: "\<not> str_in old s \<Longrightarrow> replace_all s old new = s"
  by (induction s) auto

lemma replace_first_absent: "\<not> str_in old s \<Longrightarrow> replace_first s old new = s"
  by (induction s) auto

section \<open>The content is the fold of the rule list\<close>

lemma old_inc_not_Nil: "old_inc var \<noteq> []"
  by (simp add: old_inc_def)

lemma plusplus_step_fst:
  "fst (plusplus_step var st) = replace_all (fst st) (old_inc var) (new_inc var)"
proof (cases st)
  case (Pair content fs)
  show ?thesis
  proof (cases "count_str content (old_inc var) = 0")
    case True
    then have "\<not> str_in (old_inc var) content"
      by (simp add: count_str_zero old_inc_not_Nil)
    then show ?thesis using Pair True by (simp add: replace_all_absent)
  next
    case False
    then show ?thesis using Pair by simp
  qed
qed

lemma plusplus_loop_fst:
  "fst (plusplus_loop vars st) =
     fold (\<lambda>var c. replace_all c (old_inc var) (new_inc var)) vars (fst st)"
  by (induction vars arbitrary: st) (simp_all add: plusplus_step_fst)

lemma rule_1a_fst: "fst (rule_1a st) = replace_first (fst st) old_1a new_1a"
  by (cases st) (simp add: replace_first_absent)

lemma rule_1b_fst: "fst (rule_1b st) = replace_first (fst st) old_1b new_1b"
  by (cases st) (simp add: replace_first_absent)

lemma rule_1c_fst: "fst (rule_1c st) = replace_first (fst st) old_1c new_1c"
  by (cases st) (simp add: replace_first_absent)

lemma count_zero_replace_all: "count_str s old = 0 \<Longrightarrow> replace_all s old new = s"
proof (cases "old = []")
  case True
  assume "count_str s old = 0"
  with True show ?thesis by (cases s) simp_all
next
  case False
  assume "count_str s old = 0"
  with False show ?thesis by (simp add: count_str_zero replace_all_absent)
qed

lemma rule_2_fst: "fst (rule_2 st) = replace_all (fst st) old_echo0 new_true"
  by (cases st) (simp add: Let_def count_zero_replace_all)

lemma rule_3_fst: "fst (rule_3 st) = apply_rule Increment_all (fst st)"
  by (cases st) (simp add: plusplus_loop_fst)

lemma rule_4_fst: "fst (rule_4 st) = replace_all (fst st) old_guard new_guard"
  by (cases st) (simp add: replace_all_absent)

lemma rule_5_fst: "fst (rule_5 st) = replace_all (fst st) old_sort new_sort"
  by (cases st) (simp add: replace_all_absent)

lemma rule_6a_fst: "fst (rule_6a st) = replace_all (fst st) old_ant new_ant"
  by (cases st) (simp add: Let_def count_zero_replace_all)

lemma rule_6b_fst: "fst (rule_6b st) = replace_all (fst st) old_tuln new_tuln"
  by (cases st) (simp add: Let_def count_zero_replace_all)

lemma rule_7a_fst: "fst (rule_7a st) = re_sub_port (fst st)"
  by (cases st) (simp add: Let_def)

lemma rule_7b_fst: "fst (rule_7b st) = replace_all (fst st) old_egrep new_egrep"
  by (cases st) (simp add: replace_all_absent)

lemmas rule_fst =
  rule_1a_fst rule_1b_fst rule_1c_fst rule_2_fst rule_3_fst rule_4_fst rule_5_fst
  rule_6a_fst rule_6b_fst rule_7a_fst rule_7b_fst

text \<open>
  C3. For every input text the final buffer is the original one with the rules 1a, 1b,
  1c, 2, 3, 4, 5, 6a, 6b, 7a, 7b applied in this order: the content that the patcher
  computes is the fold of the declared rule list over the buffer. The guards of the script
  (\<open>if old in content\<close>, \<open>if count > 0\<close>) add nothing, as a rule that finds no match leaves
  the buffer as it is.
\<close>

theorem patcher_content_is_fold:
  "fst (patcher content) = fold apply_rule declared_rules content"
  unfolding patcher_def declared_rules_def rule_fst by simp

section \<open>The potential under the string primitives\<close>

lemma marks_Nil: "marks [] = 0"
  by (simp add: marks_def)

lemma marks_Cons: "marks (c # s) = (if is_mark c then 1 else 0) + marks s"
  by (simp add: marks_def)

lemma marks_append: "marks (a @ b) = marks a + marks b"
  by (simp add: marks_def)

lemma prefix_split: "prefix old s \<Longrightarrow> s = old @ drop (length old) s"
  by (auto simp: prefix_def)

lemma marks_prefix: "prefix old s \<Longrightarrow> marks s = marks old + marks (drop (length old) s)"
  using prefix_split [of old s] marks_append [of old "drop (length old) s"] by simp

lemma marks_replace_all:
  "old \<noteq> [] \<Longrightarrow>
   marks (replace_all s old new) + count_str s old * marks old =
   marks s + count_str s old * marks new"
proof (induction s old new rule: replace_all.induct)
  case (1 old new)
  then show ?case by (simp add: marks_Nil)
next
  case (2 c cs old new)
  show ?case
  proof (cases "prefix old (c # cs)")
    case True
    have "marks (c # cs) = marks old + marks (drop (length old) (c # cs))"
      using True by (rule marks_prefix)
    moreover have "marks (replace_all (drop (length old) (c # cs)) old new) +
        count_str (drop (length old) (c # cs)) old * marks old =
        marks (drop (length old) (c # cs)) + count_str (drop (length old) (c # cs)) old * marks new"
      using 2 True by simp
    ultimately show ?thesis using True 2(4) by (simp add: marks_append)
  next
    case False
    then show ?thesis using 2 by (simp add: marks_Cons)
  qed
qed

lemma marks_replace_first:
  "str_in old s \<Longrightarrow> marks (replace_first s old new) + marks old = marks s + marks new"
proof (induction s)
  case Nil
  then show ?case by (simp add: marks_Nil)
next
  case (Cons c cs)
  show ?case
  proof (cases "prefix old (c # cs)")
    case True
    then show ?thesis using marks_prefix [OF True] by (simp add: marks_append)
  next
    case False
    then show ?thesis using Cons by (simp add: marks_Cons)
  qed
qed

lemma takeWhile_dropWhile_prefix:
  "prefix p (dropWhile P xs) \<Longrightarrow> xs = takeWhile P xs @ p @ drop (length p) (dropWhile P xs)"
  by (metis prefix_split takeWhile_dropWhile_id)

lemma match_port_Some:
  assumes "match_port s = Some port"
  shows "s = ''grep '' @ dq @ '':'' @ port @ dq @ drop (length port + 8) s"
    and "port \<noteq> []" and "list_all is_digit port"
proof -
  from assms have p: "prefix (''grep '' @ dq @ '':'') s"
    and port: "port = takeWhile is_digit (drop 7 s)" "port \<noteq> []"
    and q: "prefix dq (dropWhile is_digit (drop 7 s))"
    by (auto simp: match_port_def Let_def split: if_splits)
  from p have s: "s = ''grep '' @ dq @ '':'' @ drop 7 s"
    using prefix_split [OF p] by (simp add: eval_nat_numeral)
  from takeWhile_dropWhile_prefix [OF q]
  have d: "drop 7 s = port @ dq @ drop 1 (dropWhile is_digit (drop 7 s))"
    using port by simp
  have "dropWhile is_digit (drop 7 s) = drop (length port) (drop 7 s)"
    using port(1) by (simp add: dropWhile_eq_drop)
  then have "drop 1 (dropWhile is_digit (drop 7 s)) = drop (length port + 8) s"
    by (simp add: add.commute)
  with d have "drop 7 s = port @ dq @ drop (length port + 8) s" by simp
  with s show "s = ''grep '' @ dq @ '':'' @ port @ dq @ drop (length port + 8) s"
    by (metis append_Cons append_Nil)
  show "port \<noteq> []" by fact
  show "list_all is_digit port"
    unfolding port(1) list_all_iff by (auto dest: set_takeWhileD)
qed

lemma is_digit_not_mark: "is_digit c \<Longrightarrow> \<not> is_mark c"
  by (cases c) (auto simp: is_digit_def is_mark_def)

lemma marks_digits: "list_all is_digit ds \<Longrightarrow> marks ds = 0"
  by (induction ds) (simp_all add: marks_Nil marks_Cons is_digit_not_mark)

lemma marks_match_port:
  assumes "match_port s = Some port"
  shows "marks s = marks (drop (length port + 8) s)"
    and "marks (fix_port_grep port) = 1"
proof -
  note m = match_port_Some [OF assms]
  have "marks s = marks (''grep '' @ dq @ '':'' @ port @ dq @ drop (length port + 8) s)"
    using m(1) by simp
  also have "\<dots> = marks (drop (length port + 8) s)"
    using marks_digits [OF m(3)] by (simp add: marks_append marks_Cons marks_Nil is_mark_def)
  finally show "marks s = marks (drop (length port + 8) s)" .
  show "marks (fix_port_grep port) = 1"
    using marks_digits [OF m(3)]
    by (simp add: fix_port_grep_def marks_append marks_Cons marks_Nil is_mark_def)
qed

lemma marks_re_sub_port_le: "marks s \<le> marks (re_sub_port s)"
proof (induction s rule: re_sub_port.induct)
  case 1
  then show ?case by simp
next
  case (2 c cs)
  show ?case
  proof (cases "match_port (c # cs)")
    case None
    then show ?thesis using 2 by (simp add: marks_Cons)
  next
    case (Some port)
    then show ?thesis using 2 marks_match_port [OF Some] by (simp add: marks_append)
  qed
qed

lemma marks_re_sub_port_eq: "marks (re_sub_port s) = marks s \<Longrightarrow> re_sub_port s = s"
proof (induction s rule: re_sub_port.induct)
  case 1
  then show ?case by simp
next
  case (2 c cs)
  show ?case
  proof (cases "match_port (c # cs)")
    case None
    then show ?thesis using 2 by (simp add: marks_Cons)
  next
    case (Some port)
    have "marks (re_sub_port (c # cs)) =
        1 + marks (re_sub_port (drop (length port + 8) (c # cs)))"
      using Some marks_match_port(2) [OF Some] by (simp add: marks_append)
    moreover have "marks (drop (length port + 8) (c # cs)) \<le>
        marks (re_sub_port (drop (length port + 8) (c # cs)))"
      by (rule marks_re_sub_port_le)
    ultimately have False
      using "2.prems" marks_match_port(1) [OF Some] by simp
    then show ?thesis ..
  qed
qed

section \<open>Every rule records an entry exactly when it changes the buffer\<close>

lemmas pat_defs = old_1a_def new_1a_def old_1b_def new_1b_def old_1c_def new_1c_def
  old_guard_def new_guard_def old_sort_def new_sort_def old_egrep_def new_egrep_def
  old_echo0_def new_true_def old_ant_def new_ant_def old_tuln_def new_tuln_def

lemma marks_pats:
  "marks old_1a = 19" "marks new_1a = 34" "marks old_1b = 6" "marks new_1b = 20"
  "marks old_1c = 3" "marks new_1c = 6" "marks old_guard = 5" "marks new_guard = 14"
  "marks old_sort = 2" "marks new_sort = 3" "marks old_egrep = 0" "marks new_egrep = 5"
  "marks old_echo0 = 0" "marks new_true = 1" "marks old_ant = 7" "marks new_ant = 9"
  "marks old_tuln = 7" "marks new_tuln = 8"
  by code_simp+

lemma pats_not_Nil:
  "old_1a \<noteq> []" "old_1b \<noteq> []" "old_1c \<noteq> []" "old_echo0 \<noteq> []" "old_guard \<noteq> []"
  "old_sort \<noteq> []" "old_ant \<noteq> []" "old_tuln \<noteq> []" "old_egrep \<noteq> []"
  by (simp_all add: pat_defs)

lemma marks_inc: "marks (new_inc var) = marks (old_inc var) + marks var + 1"
  by (simp add: new_inc_def old_inc_def marks_append marks_Cons marks_Nil is_mark_def)

lemma good_stepI:
  assumes "\<And>c f. \<exists>es. snd (r (c, f)) = f @ es \<and>
      (if es = [] then fst (r (c, f)) = c else marks c < marks (fst (r (c, f))))"
  shows "good_step r"
  unfolding good_step_def
proof
  fix st :: state
  obtain c f where st: "st = (c, f)" by (cases st)
  from assms [of c f] show "\<exists>es. snd (r st) = snd st @ es \<and>
      (if es = [] then fst (r st) = fst st else marks (fst st) < marks (fst (r st)))"
    unfolding st by (simp only: fst_conv snd_conv)
qed

lemma good_stepD:
  assumes "good_step r"
  shows "\<exists>es. snd (r (c, f)) = f @ es \<and>
      (if es = [] then fst (r (c, f)) = c else marks c < marks (fst (r (c, f))))"
  using assms [unfolded good_step_def, rule_format, of "(c, f)"]
  by (simp only: fst_conv snd_conv)

lemma replace_first_raises:
  assumes "str_in old c" and "marks old < marks new"
  shows "marks c < marks (replace_first c old new)"
  using marks_replace_first [OF assms(1), of new] assms(2) by linarith

lemma replace_all_raises:
  assumes "str_in old c" and "old \<noteq> []" and "marks old < marks new"
  shows "marks c < marks (replace_all c old new)"
proof -
  have k: "0 < count_str c old" using assms by (simp add: count_str_pos)
  then have "count_str c old * marks old < count_str c old * marks new"
    using assms(3) by simp
  with marks_replace_all [OF assms(2), of c new] show ?thesis by linarith
qed

lemma good_literal_once:
  assumes "marks old < marks new"
    and "\<And>c f. r (c, f) = (if str_in old c then (replace_first c old new, f @ [e]) else (c, f))"
  shows "good_step r"
proof (rule good_stepI)
  fix c f
  show "\<exists>es. snd (r (c, f)) = f @ es \<and>
      (if es = [] then fst (r (c, f)) = c else marks c < marks (fst (r (c, f))))"
  proof (cases "str_in old c")
    case True
    then show ?thesis
      using replace_first_raises [OF True assms(1)] by (simp add: assms(2))
  next
    case False
    then show ?thesis by (simp add: assms(2))
  qed
qed

lemma good_literal_all:
  assumes "marks old < marks new" and "old \<noteq> []"
    and "\<And>c f. r (c, f) = (if str_in old c then (replace_all c old new, f @ [e c]) else (c, f))"
  shows "good_step r"
proof (rule good_stepI)
  fix c f
  show "\<exists>es. snd (r (c, f)) = f @ es \<and>
      (if es = [] then fst (r (c, f)) = c else marks c < marks (fst (r (c, f))))"
  proof (cases "str_in old c")
    case True
    then show ?thesis
      using replace_all_raises [OF True assms(2) assms(1)] by (simp add: assms(3))
  next
    case False
    then show ?thesis by (simp add: assms(3))
  qed
qed

lemma good_rule_1a: "good_step rule_1a"
  by (rule good_literal_once [of old_1a new_1a]) (simp_all add: marks_pats)

lemma good_rule_1b: "good_step rule_1b"
  by (rule good_literal_once [of old_1b new_1b]) (simp_all add: marks_pats)

lemma good_rule_1c: "good_step rule_1c"
  by (rule good_literal_once [of old_1c new_1c]) (simp_all add: marks_pats)

lemma good_rule_2: "good_step rule_2"
  by (rule good_literal_all [of old_echo0 new_true _ "\<lambda>c. label_2 (count_str c old_echo0)"])
     (simp_all add: marks_pats pats_not_Nil Let_def count_str_pos)

lemma good_plusplus_step: "good_step (plusplus_step var)"
  by (rule good_literal_all [of "old_inc var" "new_inc var" _
        "\<lambda>c. label_3 var (count_str c (old_inc var))"])
     (simp_all add: marks_inc old_inc_not_Nil Let_def count_str_pos)

lemma good_rule_4: "good_step rule_4"
  by (rule good_literal_all [of old_guard new_guard]) (simp_all add: marks_pats pats_not_Nil)

lemma good_rule_5: "good_step rule_5"
  by (rule good_literal_all [of old_sort new_sort]) (simp_all add: marks_pats pats_not_Nil)

lemma good_rule_6a: "good_step rule_6a"
  by (rule good_literal_all [of old_ant new_ant _ "\<lambda>c. label_6a (count_str c old_ant)"])
     (simp_all add: marks_pats pats_not_Nil Let_def count_str_pos)

lemma good_rule_6b: "good_step rule_6b"
  by (rule good_literal_all [of old_tuln new_tuln _ "\<lambda>c. label_6b (count_str c old_tuln)"])
     (simp_all add: marks_pats pats_not_Nil Let_def count_str_pos)

lemma good_rule_7b: "good_step rule_7b"
  by (rule good_literal_all [of old_egrep new_egrep]) (simp_all add: marks_pats pats_not_Nil)

lemma good_rule_7a: "good_step rule_7a"
proof (rule good_stepI)
  fix c f
  show "\<exists>es. snd (rule_7a (c, f)) = f @ es \<and>
      (if es = [] then fst (rule_7a (c, f)) = c else marks c < marks (fst (rule_7a (c, f))))"
  proof (cases "re_sub_port c = c")
    case True
    then show ?thesis by (simp add: Let_def)
  next
    case False
    then have "marks (re_sub_port c) \<noteq> marks c"
      using marks_re_sub_port_eq by blast
    then have "marks c < marks (re_sub_port c)"
      using marks_re_sub_port_le [of c] by linarith
    then show ?thesis using False by (simp add: Let_def)
  qed
qed

lemma good_id: "good_step (\<lambda>st. st)"
  by (simp add: good_step_def)

lemma good_comp:
  assumes "good_step r1" and "good_step r2"
  shows "good_step (\<lambda>st. r2 (r1 st))"
  unfolding good_step_def
proof
  fix st
  from assms(1) obtain es1 where 1: "snd (r1 st) = snd st @ es1"
    "if es1 = [] then fst (r1 st) = fst st else marks (fst st) < marks (fst (r1 st))"
    unfolding good_step_def by blast
  from assms(2) obtain es2 where 2: "snd (r2 (r1 st)) = snd (r1 st) @ es2"
    "if es2 = [] then fst (r2 (r1 st)) = fst (r1 st)
     else marks (fst (r1 st)) < marks (fst (r2 (r1 st)))"
    unfolding good_step_def by blast
  have le1: "marks (fst st) \<le> marks (fst (r1 st))"
    using 1(2) by (cases "es1 = []") simp_all
  have le2: "marks (fst (r1 st)) \<le> marks (fst (r2 (r1 st)))"
    using 2(2) by (cases "es2 = []") simp_all
  have "snd (r2 (r1 st)) = snd st @ (es1 @ es2)" using 1(1) 2(1) by simp
  moreover have "if es1 @ es2 = [] then fst (r2 (r1 st)) = fst st
      else marks (fst st) < marks (fst (r2 (r1 st)))"
  proof (cases "es1 = []")
    case True
    then show ?thesis using 1(2) 2(2) by (cases "es2 = []") simp_all
  next
    case False
    then show ?thesis using 1(2) le2 by simp
  qed
  ultimately show "\<exists>es. snd (r2 (r1 st)) = snd st @ es \<and>
      (if es = [] then fst (r2 (r1 st)) = fst st else marks (fst st) < marks (fst (r2 (r1 st))))"
    by blast
qed

lemma good_plusplus_loop: "good_step (plusplus_loop vars)"
proof (induction vars)
  case Nil
  have "plusplus_loop [] = (\<lambda>st. st)" by (rule ext) simp
  then show ?case by (simp add: good_id)
next
  case (Cons var vars)
  have "plusplus_loop (var # vars) = (\<lambda>st. plusplus_loop vars (plusplus_step var st))"
    by (rule ext) simp
  then show ?case using good_comp [OF good_plusplus_step Cons] by simp
qed

lemma good_rule_3: "good_step rule_3"
proof (rule good_stepI)
  fix c f
  from good_stepD [OF good_plusplus_loop [of "sort (remdups (findall_plusplus c))"], of c f]
  obtain es where "snd (plusplus_loop (sort (remdups (findall_plusplus c))) (c, f)) = f @ es"
    "if es = [] then fst (plusplus_loop (sort (remdups (findall_plusplus c))) (c, f)) = c
     else marks c < marks (fst (plusplus_loop (sort (remdups (findall_plusplus c))) (c, f)))"
    by blast
  then show "\<exists>es. snd (rule_3 (c, f)) = f @ es \<and>
      (if es = [] then fst (rule_3 (c, f)) = c else marks c < marks (fst (rule_3 (c, f))))"
    by (simp add: Let_def)
qed

lemma good_changed: "good_step r \<Longrightarrow> (snd (r st) \<noteq> snd st) = (fst (r st) \<noteq> fst st)"
  unfolding good_step_def by (metis append_self_conv less_irrefl)

lemma good_fold: "list_all good_step rs \<Longrightarrow> good_step (\<lambda>st. fold (\<lambda>r st. r st) rs st)"
proof (induction rs)
  case Nil
  then show ?case by (simp add: good_id)
next
  case (Cons r rs)
  then show ?case using good_comp [of r "\<lambda>st. fold (\<lambda>r st. r st) rs st"] by simp
qed

lemma good_rule_steps: "list_all good_step rule_steps"
  by (simp add: rule_steps_def good_rule_1a good_rule_1b good_rule_1c good_rule_2 good_rule_3
      good_rule_4 good_rule_5 good_rule_6a good_rule_6b good_rule_7a good_rule_7b)

lemma patcher_fold_steps: "patcher original = fold (\<lambda>r st. r st) rule_steps (original, [])"
  by (simp add: patcher_def rule_steps_def)

lemma patcher_changed: "(fst (patcher original) \<noteq> original) = (snd (patcher original) \<noteq> [])"
  using good_changed [OF good_fold [OF good_rule_steps], of "(original, [])"]
  by (simp add: patcher_fold_steps)

section \<open>The report entries of the rules\<close>

lemma entry_if_changed:
  assumes "good_step r"
    and "r (c, f) = (if g then (c', f @ [e]) else (c, f))"
  shows "snd (r (c, f)) = (if fst (r (c, f)) = c then f else f @ [e])"
proof (cases g)
  case True
  then have "snd (r (c, f)) \<noteq> snd (c, f)" using assms(2) by simp
  then have "fst (r (c, f)) \<noteq> c" using good_changed [OF assms(1), of "(c, f)"] by simp
  then show ?thesis using True assms(2) by simp
next
  case False
  then show ?thesis using assms(2) by simp
qed

lemma rule_3_changed: "(snd (rule_3 (c, f)) = f) = (fst (rule_3 (c, f)) = c)"
  using good_changed [OF good_rule_3, of "(c, f)"] by simp

text \<open>
  C2, as amended. For every buffer and every list of entries so far, each rule appends
  its entry if and only if it changed the buffer, and a rule that changed nothing appends
  nothing. The entries of the rules 2, 3, 6a and 6b carry the number of occurrences that
  were replaced; the entries of the rules 4, 5, 7a and 7b, which also replace every
  occurrence, are fixed texts without a count, as are those of 1a, 1b and 1c. Rule 3
  appends one entry for each pass of its loop that changed the buffer.
\<close>

theorem entry_iff_buffer_changed:
  "snd (rule_1a (c, f)) = (if fst (rule_1a (c, f)) = c then f else f @ [label_1a]) \<and>
   snd (rule_1b (c, f)) = (if fst (rule_1b (c, f)) = c then f else f @ [label_1b]) \<and>
   snd (rule_1c (c, f)) = (if fst (rule_1c (c, f)) = c then f else f @ [label_1c]) \<and>
   snd (rule_2 (c, f)) =
     (if fst (rule_2 (c, f)) = c then f else f @ [label_2 (count_str c old_echo0)]) \<and>
   snd (plusplus_step var (c, f)) =
     (if fst (plusplus_step var (c, f)) = c then f
      else f @ [label_3 var (count_str c (old_inc var))]) \<and>
   (snd (rule_3 (c, f)) = f) = (fst (rule_3 (c, f)) = c) \<and>
   snd (rule_4 (c, f)) = (if fst (rule_4 (c, f)) = c then f else f @ [label_4]) \<and>
   snd (rule_5 (c, f)) = (if fst (rule_5 (c, f)) = c then f else f @ [label_5]) \<and>
   snd (rule_6a (c, f)) =
     (if fst (rule_6a (c, f)) = c then f else f @ [label_6a (count_str c old_ant)]) \<and>
   snd (rule_6b (c, f)) =
     (if fst (rule_6b (c, f)) = c then f else f @ [label_6b (count_str c old_tuln)]) \<and>
   snd (rule_7a (c, f)) = (if fst (rule_7a (c, f)) = c then f else f @ [label_7a]) \<and>
   snd (rule_7b (c, f)) = (if fst (rule_7b (c, f)) = c then f else f @ [label_7b])"
proof -
  have 1: "snd (rule_1a (c, f)) = (if fst (rule_1a (c, f)) = c then f else f @ [label_1a])"
    by (rule entry_if_changed [OF good_rule_1a]) simp
  have 2: "snd (rule_1b (c, f)) = (if fst (rule_1b (c, f)) = c then f else f @ [label_1b])"
    by (rule entry_if_changed [OF good_rule_1b]) simp
  have 3: "snd (rule_1c (c, f)) = (if fst (rule_1c (c, f)) = c then f else f @ [label_1c])"
    by (rule entry_if_changed [OF good_rule_1c]) simp
  have 4: "snd (rule_2 (c, f)) =
      (if fst (rule_2 (c, f)) = c then f else f @ [label_2 (count_str c old_echo0)])"
    by (rule entry_if_changed [OF good_rule_2]) (simp add: Let_def)
  have 5: "snd (plusplus_step var (c, f)) =
      (if fst (plusplus_step var (c, f)) = c then f
       else f @ [label_3 var (count_str c (old_inc var))])"
    by (rule entry_if_changed [OF good_plusplus_step]) (simp add: Let_def)
  have 6: "snd (rule_4 (c, f)) = (if fst (rule_4 (c, f)) = c then f else f @ [label_4])"
    by (rule entry_if_changed [OF good_rule_4]) simp
  have 7: "snd (rule_5 (c, f)) = (if fst (rule_5 (c, f)) = c then f else f @ [label_5])"
    by (rule entry_if_changed [OF good_rule_5]) simp
  have 8: "snd (rule_6a (c, f)) =
      (if fst (rule_6a (c, f)) = c then f else f @ [label_6a (count_str c old_ant)])"
    by (rule entry_if_changed [OF good_rule_6a]) (simp add: Let_def)
  have 9: "snd (rule_6b (c, f)) =
      (if fst (rule_6b (c, f)) = c then f else f @ [label_6b (count_str c old_tuln)])"
    by (rule entry_if_changed [OF good_rule_6b]) (simp add: Let_def)
  have 10: "snd (rule_7a (c, f)) = (if fst (rule_7a (c, f)) = c then f else f @ [label_7a])"
    by (rule entry_if_changed [OF good_rule_7a]) (simp add: Let_def)
  have 11: "snd (rule_7b (c, f)) = (if fst (rule_7b (c, f)) = c then f else f @ [label_7b])"
    by (rule entry_if_changed [OF good_rule_7b]) simp
  from 1 2 3 4 5 rule_3_changed 6 7 8 9 10 11 show ?thesis by (intro conjI)
qed

theorem entry_iff_buffer_changed_witness:
  "snd (rule_1a (old_1a, [])) = [label_1a]"
proof -
  have "fst (rule_1a (old_1a, [])) \<noteq> old_1a" by code_simp
  with entry_iff_buffer_changed [THEN conjunct1, of old_1a "[]"] show ?thesis
    by (simp only: if_False append_Nil)
qed

text \<open>
  C2 as stated fails: rule 5 replaces both of two occurrences of its pattern, and its
  entry does not contain the count 2.
\<close>

theorem global_rule_entry_without_count:
  "count_str (old_sort @ nl @ old_sort) old_sort = 2 \<and>
   rule_5 (old_sort @ nl @ old_sort, []) = (new_sort @ nl @ new_sort, [label_5]) \<and>
   \<not> str_in (str_nat 2) label_5"
  by code_simp

section \<open>No-op or report\<close>

lemma good_append:
  assumes "good_step r"
  shows "\<exists>es. snd (r st) = snd st @ es"
  using assms unfolding good_step_def by blast



lemma main_readable:
  assumes "read_result w (target_of argv) = Inr original"
  shows "main argv w =
     (if fst (patcher original) = original
      then \<lparr>files = w, stdout = [No_changes_needed], status = exit_ok\<rparr>
      else (case write_result w (target_of argv) of
              Some e \<Rightarrow> \<lparr>files = w, stdout = [], status = uncaught e\<rparr>
            | None \<Rightarrow>
                \<lparr>files = write_file w (target_of argv) (fst (patcher original)),
                 stdout = Applied (length (snd (patcher original))) (target_of argv) #
                          map Fix_line (snd (patcher original)),
                 status = exit_ok\<rparr>))"
  using assms by (simp add: main_def Let_def case_prod_beta)





section \<open>Changed if and only if fixes were recorded\<close>

lemma single_entry_length:
  "length (snd (rule_1a st)) = length (snd st) + (if matched rule_1a st then 1 else 0)"
  "length (snd (rule_1b st)) = length (snd st) + (if matched rule_1b st then 1 else 0)"
  "length (snd (rule_1c st)) = length (snd st) + (if matched rule_1c st then 1 else 0)"
  "length (snd (rule_2 st)) = length (snd st) + (if matched rule_2 st then 1 else 0)"
  "length (snd (rule_4 st)) = length (snd st) + (if matched rule_4 st then 1 else 0)"
  "length (snd (rule_5 st)) = length (snd st) + (if matched rule_5 st then 1 else 0)"
  "length (snd (rule_6a st)) = length (snd st) + (if matched rule_6a st then 1 else 0)"
  "length (snd (rule_6b st)) = length (snd st) + (if matched rule_6b st then 1 else 0)"
  "length (snd (rule_7a st)) = length (snd st) + (if matched rule_7a st then 1 else 0)"
  "length (snd (rule_7b st)) = length (snd st) + (if matched rule_7b st then 1 else 0)"
  by (cases st; simp add: matched_def Let_def)+

lemma rule_3_entry_length:
  "length (snd (rule_3 st)) = length (snd st) + length (entries_of rule_3 st)"
  "matched rule_3 st = (entries_of rule_3 st \<noteq> [])"
proof -
  obtain es where es: "snd (rule_3 st) = snd st @ es"
    using good_append [OF good_rule_3] by blast
  then show "length (snd (rule_3 st)) = length (snd st) + length (entries_of rule_3 st)"
    by (simp add: entries_of_def)
  from es show "matched rule_3 st = (entries_of rule_3 st \<noteq> [])"
    by (simp add: entries_of_def matched_def)
qed

lemma length_fixes:
  "length (snd (patcher original)) +
     (if entries_of rule_3 (before_rule_3 original) = [] then 0 else 1) =
   rules_matched original + length (entries_of rule_3 (before_rule_3 original))"
  unfolding patcher_def rules_matched_def rule_steps_def before_rule_3_def count_matched.simps
    single_entry_length rule_3_entry_length
  by simp

text \<open>
  C10, as amended. For every input text the final buffer differs from the original if
  and only if the list of fixes is not empty, so no rule undoes what another did. The
  number printed in the summary line is the number of report entries. Every rule other
  than rule 3 that matched adds one entry, and rule 3 adds one entry for each name it
  fixed: the number printed is the number of the rules that matched, plus the number of
  entries of rule 3 beyond its first.
\<close>

theorem changed_iff_fixes:
  "(fst (patcher original) \<noteq> original) = (snd (patcher original) \<noteq> []) \<and>
   length (snd (patcher original)) +
     (if entries_of rule_3 (before_rule_3 original) = [] then 0 else 1) =
   rules_matched original + length (entries_of rule_3 (before_rule_3 original)) \<and>
   (read_result w (target_of argv) = Inr original \<and> write_result w (target_of argv) = None \<and>
    fst (patcher original) \<noteq> original \<longrightarrow>
    hd (stdout (main argv w)) = Applied (length (snd (patcher original))) (target_of argv))"
proof (intro conjI impI)
  show "(fst (patcher original) \<noteq> original) = (snd (patcher original) \<noteq> [])"
    by (rule patcher_changed)
  show "length (snd (patcher original)) +
     (if entries_of rule_3 (before_rule_3 original) = [] then 0 else 1) =
   rules_matched original + length (entries_of rule_3 (before_rule_3 original))"
    by (rule length_fixes)
next
  assume a: "read_result w (target_of argv) = Inr original \<and>
    write_result w (target_of argv) = None \<and> fst (patcher original) \<noteq> original"
  then have "read_result w (target_of argv) = Inr original" by simp
  from main_readable [OF this] a
  show "hd (stdout (main argv w)) = Applied (length (snd (patcher original))) (target_of argv)"
    by simp
qed

lemma patch_foo_bar:
  "patcher ''((foo++)) ((bar++))'' =
     (''foo=$((foo + 1)) bar=$((bar + 1))'', [label_3 ''bar'' 1, label_3 ''foo'' 1])"
  by code_simp

theorem changed_iff_fixes_witness:
  "hd (stdout (main [''fix-illumos-compat.py'', ''t.sh'']
     \<lparr>read_result = (\<lambda>p. Inr ''((foo++)) ((bar++))''), write_result = (\<lambda>p. None)\<rparr>)) =
   Applied 2 ''t.sh''"
  using changed_iff_fixes
    [of "''((foo++)) ((bar++))''"
        "\<lparr>read_result = (\<lambda>p. Inr ''((foo++)) ((bar++))''), write_result = (\<lambda>p. None)\<rparr>"
        "[''fix-illumos-compat.py'', ''t.sh'']"]
  by (simp add: patch_foo_bar target_of_def)

text \<open>
  C10 as stated fails: on a text with two increment idioms only rule 3 matches, and the
  summary line says 2.
\<close>

theorem two_entries_one_rule:
  "rules_matched ''((foo++)) ((bar++))'' = 1 \<and>
   length (snd (patcher ''((foo++)) ((bar++))'')) = 2 \<and>
   stdout (main [''fix-illumos-compat.py'', ''t.sh'']
     \<lparr>read_result = (\<lambda>p. Inr ''((foo++)) ((bar++))''), write_result = (\<lambda>p. None)\<rparr>) =
   [Applied 2 ''t.sh'', Fix_line (label_3 ''bar'' 1), Fix_line (label_3 ''foo'' 1)]"
proof -
  have "rules_matched ''((foo++)) ((bar++))'' = 1" by code_simp
  then show ?thesis
    by (simp add: patch_foo_bar main_def target_of_def Let_def)
qed

section \<open>Occurrences that cannot overlap\<close>

lemma agree_Nil2: "agree xs [] = True"
  by (cases xs) simp_all

lemma agree_iff: "agree a b = (prefix a b \<or> prefix b a)"
  by (induction a b rule: agree.induct) auto

lemma agree_sym: "agree a b = agree b a"
  by (auto simp: agree_iff)

lemma agree_refl: "agree a a"
  by (simp add: agree_iff)

lemma agree_append_left: "agree a (p @ r) \<Longrightarrow> agree a p"
  by (induction a p rule: agree.induct) auto

lemma prefix_append_agree: "prefix q (a @ x) \<Longrightarrow> agree a q"
  by (auto simp: agree_iff prefix_append intro: prefixI)

lemma begins_in_iff: "begins_in a q = (\<exists>u v. a = u @ v \<and> v \<noteq> [] \<and> agree v q)"
proof (induction a)
  case Nil
  then show ?case by simp
next
  case (Cons x a)
  show ?case
  proof
    assume "begins_in (x # a) q"
    then consider "agree (x # a) q" | "begins_in a q" by auto
    then show "\<exists>u v. x # a = u @ v \<and> v \<noteq> [] \<and> agree v q"
    proof cases
      case 1
      then have "x # a = [] @ (x # a) \<and> x # a \<noteq> [] \<and> agree (x # a) q" by simp
      then show ?thesis by blast
    next
      case 2
      then obtain u v where "a = u @ v" "v \<noteq> []" "agree v q" using Cons by blast
      then have "x # a = (x # u) @ v \<and> v \<noteq> [] \<and> agree v q" by simp
      then show ?thesis by blast
    qed
  next
    assume "\<exists>u v. x # a = u @ v \<and> v \<noteq> [] \<and> agree v q"
    then obtain u v where uv: "x # a = u @ v" "v \<noteq> []" "agree v q" by blast
    show "begins_in (x # a) q"
    proof (cases u)
      case Nil
      then have "v = x # a" using uv(1) by simp
      then show ?thesis using uv(3) by simp
    next
      case (Cons y u')
      then have "a = u' @ v" using uv by simp
      then show ?thesis using uv Cons.IH by auto
    qed
  qed
qed

lemma begins_in_Nil2: "begins_in a [] = (a \<noteq> [])"
  by (cases a) (simp_all add: agree_Nil2)

lemma begins_in_append_left: "begins_in a (p @ r) \<Longrightarrow> begins_in a p"
  unfolding begins_in_iff using agree_append_left by blast

lemma begins_in_tail: "begins_in b q \<Longrightarrow> begins_in (a @ b) q"
  by (induction a) simp_all

lemma begins_in_absent: "q \<noteq> [] \<Longrightarrow> hd q \<notin> set a \<Longrightarrow> \<not> begins_in a q"
proof (induction a)
  case Nil
  then show ?case by simp
next
  case (Cons x a)
  then show ?case by (cases q) auto
qed

text \<open>Counting over a text in which the counted text cannot begin.\<close>

lemma count_str_skip:
  "\<not> begins_in a q \<Longrightarrow> q \<noteq> [] \<Longrightarrow> count_str (a @ x) q = count_str x q"
proof (induction a)
  case Nil
  then show ?case by simp
next
  case (Cons c a)
  have "\<not> prefix q ((c # a) @ x)"
    using Cons.prems(1) prefix_append_agree [of q "c # a" x] by auto
  then show ?case using Cons by simp
qed

lemma count_str_split:
  "\<not> begins_in q a \<Longrightarrow> q \<noteq> [] \<Longrightarrow>
   count_str (u @ a @ v) q = count_str u q + count_str (a @ v) q"
proof (induction u rule: length_induct)
  case (1 u)
  show ?case
  proof (cases u)
    case Nil
    then show ?thesis using 1 by simp
  next
    case (Cons c u')
    show ?thesis
    proof (cases "prefix q (u @ a @ v)")
      case False
      then have "\<not> prefix q u" by (auto simp: prefix_def)
      moreover have "count_str (u' @ a @ v) q = count_str u' q + count_str (a @ v) q"
        using 1 Cons by simp
      ultimately show ?thesis using False Cons 1(3) by simp
    next
      case True
      have pu: "prefix q u"
      proof (rule ccontr)
        assume n: "\<not> prefix q u"
        from True obtain r where r: "u @ a @ v = q @ r" by (auto simp: prefix_def)
        from n r obtain q2 where q2: "q = u @ q2" "q2 \<noteq> []"
          by (metis append_eq_append_conv2 append_Nil2 prefixI)
        with r have "a @ v = q2 @ r" by simp
        then have "agree q2 a"
          by (metis agree_sym prefixI prefix_append_agree)
        with q2 have "begins_in q a" unfolding begins_in_iff by blast
        with 1 show False by simp
      qed
      then obtain r where r: "u = q @ r" by (auto simp: prefix_def)
      have "length r < length u" using r 1(3) by simp
      then have "count_str (r @ a @ v) q = count_str r q + count_str (a @ v) q"
        using 1 by simp
      moreover have "drop (length q) (u @ a @ v) = r @ a @ v" using r by simp
      moreover have "drop (length q) u = r" using r by simp
      ultimately show ?thesis using True pu Cons 1(3) by simp
    qed
  qed
qed

lemma count_str_apart:
  assumes "apart q a" and "q \<noteq> []"
  shows "count_str (u @ a @ v) q = count_str u q + count_str v q"
  using assms count_str_split [of q a u v] count_str_skip [of a q v] by (simp add: apart_def)

lemma str_in_append: "str_in q u \<Longrightarrow> str_in q (u @ x)" "str_in q v \<Longrightarrow> str_in q (u @ v)"
  unfolding str_in_sublist by (auto simp: sublist_append)

lemma str_in_middle: "str_in q (u @ q @ v)"
  unfolding str_in_sublist by simp

lemma str_in_exists: "str_in q s = (\<exists>u v. s = u @ q @ v)"
  unfolding str_in_sublist sublist_def by simp

lemma str_in_apart:
  assumes "apart q a" and "q \<noteq> []"
  shows "str_in q (u @ a @ v) = (str_in q u \<or> str_in q v)"
  using count_str_apart [OF assms, of u v] count_str_pos [OF assms(2)]
  by (metis add_gr_0)

section \<open>What a replacement keeps, removes and cannot create\<close>

lemma replace_first_decomp:
  "str_in old s \<Longrightarrow> \<exists>u v. s = u @ old @ v \<and> replace_first s old new = u @ new @ v"
proof (induction s)
  case Nil
  then show ?case by simp
next
  case (Cons c cs)
  show ?case
  proof (cases "prefix old (c # cs)")
    case True
    then have "c # cs = [] @ old @ drop (length old) (c # cs)"
      using prefix_split by fastforce
    moreover have "replace_first (c # cs) old new = [] @ new @ drop (length old) (c # cs)"
      using True by simp
    ultimately show ?thesis by blast
  next
    case False
    then obtain u v where "cs = u @ old @ v" "replace_first cs old new = u @ new @ v"
      using Cons by auto
    then have "c # cs = (c # u) @ old @ v \<and>
        replace_first (c # cs) old new = (c # u) @ new @ v"
      using False by simp
    then show ?thesis by blast
  qed
qed

lemma replace_all_decomp:
  "str_in old s \<Longrightarrow> old \<noteq> [] \<Longrightarrow>
   \<exists>u v. s = u @ old @ v \<and> \<not> str_in old u \<and> length v < length s \<and>
     replace_all s old new = u @ new @ replace_all v old new"
proof (induction s)
  case Nil
  then show ?case by simp
next
  case (Cons c cs)
  show ?case
  proof (cases "prefix old (c # cs)")
    case True
    then have "c # cs = [] @ old @ drop (length old) (c # cs)"
      using prefix_split by fastforce
    moreover have "replace_all (c # cs) old new =
        [] @ new @ replace_all (drop (length old) (c # cs)) old new"
      using True Cons.prems by simp
    moreover have "\<not> str_in old []" using Cons.prems by simp
    moreover have "length (drop (length old) (c # cs)) < length (c # cs)"
      using Cons.prems by simp
    ultimately show ?thesis by blast
  next
    case False
    then obtain u v where uv: "cs = u @ old @ v" "\<not> str_in old u" "length v < length cs"
      "replace_all cs old new = u @ new @ replace_all v old new"
      using Cons by auto
    have "\<not> str_in old (c # u)"
    proof
      assume "str_in old (c # u)"
      then have "prefix old (c # u)" using uv(2) by simp
      then have "prefix old ((c # u) @ old @ v)" by (rule prefix_prefix)
      then have "prefix old (c # cs)" using uv(1) by simp
      with False show False by simp
    qed
    moreover have "c # cs = (c # u) @ old @ v" using uv(1) by simp
    moreover have "replace_all (c # cs) old new = (c # u) @ new @ replace_all v old new"
      using False uv(4) Cons.prems by simp
    moreover have "length v < length (c # cs)" using uv(3) by simp
    ultimately show ?thesis by blast
  qed
qed


lemma apart_not_Nil: "apart q old \<Longrightarrow> q \<noteq> [] \<Longrightarrow> old \<noteq> []"
  by (auto simp: apart_def begins_in_Nil2)

lemma count_replace_all:
  assumes "apart q old" and "apart q new" and "q \<noteq> []"
  shows "count_str (replace_all s old new) q = count_str s q"
proof (induction s rule: length_induct)
  case (1 s)
  have old: "old \<noteq> []" using assms(1,3) by (rule apart_not_Nil)
  show ?case
  proof (cases "str_in old s")
    case False
    then show ?thesis by (simp add: replace_all_absent)
  next
    case True
    from replace_all_decomp [OF True old, of new]
    obtain u v where uv: "s = u @ old @ v" "length v < length s"
      "replace_all s old new = u @ new @ replace_all v old new" by blast
    have "count_str (replace_all v old new) q = count_str v q" using 1 uv(2) by simp
    then show ?thesis
      using uv(1,3) count_str_apart [OF assms(1,3)] count_str_apart [OF assms(2,3)] by simp
  qed
qed

text \<open>Replacing every occurrence leaves none, when the old and the new text are apart.\<close>

lemma count_replace_all_self:
  assumes "apart old new" and "old \<noteq> []"
  shows "count_str (replace_all s old new) old = 0"
proof (induction s rule: length_induct)
  case (1 s)
  show ?case
  proof (cases "str_in old s")
    case False
    then show ?thesis by (simp add: replace_all_absent count_str_zero assms(2))
  next
    case True
    from replace_all_decomp [OF True assms(2), of new]
    obtain u v where uv: "s = u @ old @ v" "\<not> str_in old u" "length v < length s"
      "replace_all s old new = u @ new @ replace_all v old new" by blast
    have "count_str (replace_all v old new) old = 0" using 1 uv(3) by simp
    moreover have "count_str u old = 0" using uv(2) by (simp add: count_str_zero assms(2))
    ultimately show ?thesis
      using uv(4) count_str_apart [OF assms] by simp
  qed
qed

text \<open>Replacing does not create a text that is apart from the new text, and does not
  destroy a text that is apart from the old one.\<close>

lemma absent_replace_first:
  assumes "apart q new" and "q \<noteq> []" and "\<not> str_in q s"
  shows "\<not> str_in q (replace_first s old new)"
proof (cases "str_in old s")
  case False
  then show ?thesis using assms(3) by (simp add: replace_first_absent)
next
  case True
  from replace_first_decomp [OF True, of new]
  obtain u v where uv: "s = u @ old @ v" "replace_first s old new = u @ new @ v" by blast
  have "\<not> str_in q u" "\<not> str_in q v"
    using assms(3) uv(1) str_in_append [of q] by (metis, metis)
  then show ?thesis using uv(2) str_in_apart [OF assms(1,2)] by simp
qed

lemma absent_replace_all:
  assumes "apart q new" and "q \<noteq> []" and "old \<noteq> []"
  shows "\<not> str_in q s \<Longrightarrow> \<not> str_in q (replace_all s old new)"
proof (induction s rule: length_induct)
  case (1 s)
  show ?case
  proof (cases "str_in old s")
    case False
    then show ?thesis using 1(2) by (simp add: replace_all_absent)
  next
    case True
    from replace_all_decomp [OF True assms(3), of new]
    obtain u v where uv: "s = u @ old @ v" "length v < length s"
      "replace_all s old new = u @ new @ replace_all v old new" by blast
    have n: "\<not> str_in q u" "\<not> str_in q v"
      using 1(2) uv(1) str_in_append [of q] by (metis, metis)
    then have "\<not> str_in q (replace_all v old new)" using 1(1) uv(2) by simp
    then show ?thesis using n(1) uv(3) str_in_apart [OF assms(1,2)] by simp
  qed
qed

lemma kept_replace_first:
  assumes "apart q old" and "q \<noteq> []" and "str_in q s"
  shows "str_in q (replace_first s old new)"
proof (cases "str_in old s")
  case False
  then show ?thesis using assms(3) by (simp add: replace_first_absent)
next
  case True
  from replace_first_decomp [OF True, of new]
  obtain u v where uv: "s = u @ old @ v" "replace_first s old new = u @ new @ v" by blast
  have "str_in q u \<or> str_in q v" using assms(3) uv(1) str_in_apart [OF assms(1,2)] by simp
  then show ?thesis using uv(2) str_in_append [of q] by (metis append.assoc)
qed

lemma kept_replace_all:
  assumes "apart q old" and "q \<noteq> []"
  shows "str_in q s \<Longrightarrow> str_in q (replace_all s old new)"
proof (induction s rule: length_induct)
  case (1 s)
  have old: "old \<noteq> []" using assms by (rule apart_not_Nil)
  show ?case
  proof (cases "str_in old s")
    case False
    then show ?thesis using 1(2) by (simp add: replace_all_absent)
  next
    case True
    from replace_all_decomp [OF True old, of new]
    obtain u v where uv: "s = u @ old @ v" "length v < length s"
      "replace_all s old new = u @ new @ replace_all v old new" by blast
    have "str_in q u \<or> str_in q v" using 1(2) uv(1) str_in_apart [OF assms] by simp
    then show ?thesis
    proof
      assume "str_in q u"
      then show ?thesis using uv(3) by (simp add: str_in_append(1))
    next
      assume "str_in q v"
      then have "str_in q (replace_all v old new)" using 1(1) uv(2) by simp
      then have "str_in q (u @ (new @ replace_all v old new))"
        by (intro str_in_append(2))
      then show ?thesis using uv(3) by simp
    qed
  qed
qed


section \<open>Overlaps with the texts that carry a captured name or port\<close>

lemma begins_in_append:
  "begins_in (a @ y) q \<Longrightarrow> begins_in a q \<or> begins_in y q"
proof (induction a)
  case Nil
  then show ?case by simp
next
  case (Cons x a)
  from Cons.prems have "agree ((x # a) @ y) q \<or> begins_in (a @ y) q" by simp
  then show ?case
  proof
    assume "agree ((x # a) @ y) q"
    then have "agree (x # a) q" by (metis agree_append_left agree_sym)
    then show ?thesis by simp
  next
    assume "begins_in (a @ y) q"
    then show ?thesis using Cons.IH by auto
  qed
qed

text \<open>Runs of characters of one class, as \<open>\w+\<close> and \<open>\d+\<close> capture them.\<close>

lemma agree_runs:
  assumes "list_all P w" and "list_all P w'" and "\<not> P y" and "\<not> P y'"
  shows "agree (w @ y # r) (w' @ y' # r') = (w = w' \<and> y = y' \<and> agree r r')"
  using assms
proof (induction w arbitrary: w')
  case Nil
  then show ?case by (cases w') auto
next
  case (Cons a w)
  then show ?case by (cases w') auto
qed

lemma agree_run_other:
  assumes "list_all P w'" and "w' \<noteq> []" and "\<not> P y"
  shows "\<not> agree (y # r) (w' @ r')"
  using assms by (cases w') auto

lemma begins_in_run:
  assumes "list_all P w" and "q \<noteq> []" and "\<not> P (hd q)"
  shows "begins_in (w @ r) q = begins_in r q"
  using assms
proof (induction w)
  case Nil
  then show ?case by simp
next
  case (Cons a w)
  then show ?case by (cases q) auto
qed

lemma begins_in_run_run:
  assumes "list_all P w" and "list_all P w'" and "\<not> P y" and "\<not> P y'"
    and "begins_in (w @ y # r) (w' @ y' # r')"
  shows "(y = y' \<and> agree r r') \<or> begins_in (y # r) (w' @ y' # r')"
  using assms
proof (induction w)
  case Nil
  then show ?case by simp
next
  case (Cons a w)
  from Cons.prems(5)
  have "agree ((a # w) @ y # r) (w' @ y' # r') \<or> begins_in (w @ y # r) (w' @ y' # r')"
    by simp
  then show ?case
  proof
    assume "agree ((a # w) @ y # r) (w' @ y' # r')"
    then show ?thesis
      using agree_runs [OF Cons.prems(1) Cons.prems(2) Cons.prems(3) Cons.prems(4)] by simp
  next
    assume "begins_in (w @ y # r) (w' @ y' # r')"
    then show ?thesis using Cons by simp
  qed
qed

lemma not_word:
  "\<not> is_word CHR ''(''" "\<not> is_word CHR '')''" "\<not> is_word CHR ''+''" "\<not> is_word CHR ''=''"
  "\<not> is_word CHR ''$''" "\<not> is_word CHR '' ''" "\<not> is_word CHR 0x22" "\<not> is_word CHR '':''"
  "\<not> is_word CHR ''[''" "\<not> is_word CHR '']''" "\<not> is_word CHR ''.''" "\<not> is_word CHR ''|''"
  by (simp_all add: is_word_def)

lemma not_digit:
  "\<not> is_digit CHR ''(''" "\<not> is_digit CHR '')''" "\<not> is_digit CHR ''+''" "\<not> is_digit CHR ''=''"
  "\<not> is_digit CHR ''$''" "\<not> is_digit CHR '' ''" "\<not> is_digit CHR 0x22" "\<not> is_digit CHR '':''"
  "\<not> is_digit CHR ''[''" "\<not> is_digit CHR '']''" "\<not> is_digit CHR ''.''" "\<not> is_digit CHR ''|''"
  "\<not> is_digit CHR ''g''" "\<not> is_digit CHR ''e''" "\<not> is_digit CHR ''f''" "\<not> is_digit CHR ''b''"
  by (simp_all add: is_digit_def)

lemma digit_is_word: "is_digit c \<Longrightarrow> is_word c"
  by (auto simp: is_digit_def is_word_def Let_def)

lemma word_not_in:
  assumes "list_all is_word w" and "\<not> is_word c"
  shows "c \<notin> set w"
  using assms by (auto simp: list_all_iff)

lemma digit_not_in:
  assumes "list_all is_digit w" and "\<not> is_digit c"
  shows "c \<notin> set w"
  using assms by (auto simp: list_all_iff)


text \<open>The idioms of rule 3 for two names, and the replacement for a name.\<close>

lemma word_run_head:
  assumes "list_all is_word w" and "w \<noteq> []" and "\<not> is_word c"
  shows "\<not> agree (w @ r) (c # r')"
  using assms by (cases w) auto

lemma old_inc_old_inc:
  assumes "list_all is_word w" and "w \<noteq> []" and "list_all is_word u" and "u \<noteq> w"
  shows "\<not> begins_in (old_inc w) (old_inc u)"
proof
  assume "begins_in (old_inc w) (old_inc u)"
  then consider (a) "agree (w @ CHR ''+'' # ''+))'') (u @ CHR ''+'' # ''+))'')"
    | (b) "agree (w @ ''++))'') (CHR ''('' # u @ ''++))'')"
    | (c) "begins_in (w @ ''++))'') (old_inc u)"
    by (auto simp: old_inc_def)
  then show False
  proof cases
    case a
    then show ?thesis
      using agree_runs [OF assms(1) assms(3), of "CHR ''+''" "CHR ''+''"] assms(4)
      by (simp add: not_word)
  next
    case b
    then show ?thesis using word_run_head [OF assms(1,2)] by (simp add: not_word)
  next
    case c
    then have "begins_in ''++))'' (old_inc u)"
      using begins_in_run [OF assms(1), of "old_inc u" "''++))''"]
      by (simp add: old_inc_def not_word)
    then show ?thesis by (simp add: old_inc_def)
  qed
qed

lemma old_inc_apart:
  assumes "list_all is_word w" and "w \<noteq> []" and "list_all is_word u" and "u \<noteq> []"
    and "u \<noteq> w"
  shows "apart (old_inc w) (old_inc u)"
  unfolding apart_def
  using old_inc_old_inc [OF assms(1,2,3,5)] old_inc_old_inc [OF assms(3,4,1)] assms(5)
  by auto

lemma new_inc_in_old_inc:
  assumes "list_all is_word w" and "list_all is_word u" and "u \<noteq> []"
  shows "\<not> begins_in (old_inc w) (new_inc u)"
proof
  assume b: "begins_in (old_inc w) (new_inc u)"
  have h: "\<And>c r. \<not> is_word c \<Longrightarrow> \<not> agree (c # r) (new_inc u)"
    using agree_run_other [OF assms(2,3)] by (simp add: new_inc_def)
  from b have "begins_in (w @ CHR ''+'' # ''+))'') (u @ CHR ''='' # ''$(('' @ u @ '' + 1))'')"
    using h by (simp add: old_inc_def not_word) (simp add: new_inc_def)
  from begins_in_run_run [OF assms(1,2) _ _ this]
  have "begins_in ''++))'' (new_inc u)" by (simp add: not_word new_inc_def)
  then show False using h by (simp add: not_word)
qed

lemma old_inc_in_new_inc:
  assumes "list_all is_word w" and "w \<noteq> []" and "list_all is_word u"
  shows "\<not> begins_in (new_inc u) (old_inc w)"
proof
  assume "begins_in (new_inc u) (old_inc w)"
  then have "begins_in (''=$(('' @ u @ '' + 1))'') (old_inc w)"
    using begins_in_run [OF assms(3), of "old_inc w" "''=$(('' @ u @ '' + 1))''"]
    by (simp add: new_inc_def old_inc_def not_word)
  then consider (a) "agree (u @ CHR '' '' # ''+ 1))'') (w @ CHR ''+'' # ''+))'')"
    | (b) "agree (CHR ''('' # u @ '' + 1))'') (CHR ''('' # CHR ''('' # w @ ''++))'')"
    | (c) "begins_in (u @ '' + 1))'') (old_inc w)"
    by (auto simp: old_inc_def)
  then show False
  proof cases
    case a
    then show ?thesis
      using agree_runs [OF assms(3) assms(1), of "CHR '' ''" "CHR ''+''"]
      by (simp add: not_word)
  next
    case b
    then have "agree (u @ '' + 1))'') (CHR ''('' # w @ ''++))'')" by simp
    then show ?thesis using assms(3) by (cases u) (auto simp: not_word)
  next
    case c
    then have "begins_in '' + 1))'' (old_inc w)"
      using begins_in_run [OF assms(3), of "old_inc w" "'' + 1))''"]
      by (simp add: old_inc_def not_word)
    then show ?thesis by (simp add: old_inc_def)
  qed
qed

lemma old_inc_new_inc_apart:
  assumes "list_all is_word w" and "w \<noteq> []" and "list_all is_word u" and "u \<noteq> []"
  shows "apart (old_inc w) (new_inc u)"
  unfolding apart_def
  using new_inc_in_old_inc [OF assms(1,3,4)] old_inc_in_new_inc [OF assms(1,2,3)] by simp

section \<open>The names that rule 3 fixes\<close>

lemma takeWhile_run:
  assumes "list_all P w" and "\<not> P y"
  shows "takeWhile P (w @ y # r) = w" and "dropWhile P (w @ y # r) = y # r"
  using assms by (induction w) simp_all

lemma match_plusplus_Some:
  assumes "match_plusplus s = Some var"
  shows "s = old_inc var @ drop (length var + 6) s" and "var \<noteq> []" and "list_all is_word var"
proof -
  from assms have p: "prefix ''(('' s"
    and var: "var = takeWhile is_word (drop 2 s)" "var \<noteq> []"
    and q: "prefix ''++))'' (dropWhile is_word (drop 2 s))"
    by (auto simp: match_plusplus_def Let_def split: if_splits)
  from p have s: "s = ''(('' @ drop 2 s"
    using prefix_split [OF p] by (simp add: eval_nat_numeral)
  from takeWhile_dropWhile_prefix [OF q]
  have d: "drop 2 s = var @ ''++))'' @ drop 4 (dropWhile is_word (drop 2 s))"
    using var by (simp add: eval_nat_numeral)
  have "dropWhile is_word (drop 2 s) = drop (length var) (drop 2 s)"
    using var(1) by (simp add: dropWhile_eq_drop)
  then have "drop 4 (dropWhile is_word (drop 2 s)) = drop (length var + 6) s"
    by (simp add: add.commute)
  with d have "drop 2 s = var @ ''++))'' @ drop (length var + 6) s" by simp
  with s have "s = ''(('' @ var @ ''++))'' @ drop (length var + 6) s"
    by (metis append_Cons append_Nil)
  then show "s = old_inc var @ drop (length var + 6) s" by (simp add: old_inc_def)
  show "var \<noteq> []" by fact
  show "list_all is_word var"
    unfolding var(1) list_all_iff by (auto dest: set_takeWhileD)
qed

lemma match_plusplus_old_inc:
  assumes "list_all is_word w" and "w \<noteq> []"
  shows "match_plusplus (old_inc w @ rest) = Some w"
  using assms takeWhile_run [OF assms(1), of "CHR ''+''" "''+))'' @ rest"]
  by (simp add: match_plusplus_def old_inc_def not_word)

lemma length_old_inc: "length (old_inc var) = length var + 6"
  by (simp add: old_inc_def)

lemma findall_sound:
  "w \<in> set (findall_plusplus s) \<Longrightarrow> list_all is_word w \<and> w \<noteq> [] \<and> str_in (old_inc w) s"
proof (induction s rule: findall_plusplus.induct)
  case 1
  then show ?case by simp
next
  case (2 c cs)
  show ?case
  proof (cases "match_plusplus (c # cs)")
    case None
    then show ?thesis using 2 by auto
  next
    case (Some var)
    note m = match_plusplus_Some [OF Some]
    from 2(3) Some
    consider "w = var" | "w \<in> set (findall_plusplus (drop (length var + 6) (c # cs)))"
      by auto
    then show ?thesis
    proof cases
      case 1
      have "str_in (old_inc var) ([] @ old_inc var @ drop (length var + 6) (c # cs))"
        by (rule str_in_middle)
      then show ?thesis using 1 m by simp
    next
      case 2
      then have "list_all is_word w \<and> w \<noteq> [] \<and>
          str_in (old_inc w) (drop (length var + 6) (c # cs))"
        using "2.IH"(2) [OF Some] by simp
      then show ?thesis using str_in_drop by blast
    qed
  qed
qed

lemma findall_complete:
  assumes "list_all is_word w" and "w \<noteq> []"
  shows "str_in (old_inc w) s \<Longrightarrow> w \<in> set (findall_plusplus s)"
proof (induction s rule: findall_plusplus.induct)
  case 1
  then show ?case by (simp add: old_inc_def)
next
  case (2 c cs)
  show ?case
  proof (cases "match_plusplus (c # cs)")
    case None
    have "\<not> prefix (old_inc w) (c # cs)"
    proof
      assume "prefix (old_inc w) (c # cs)"
      then obtain r where "c # cs = old_inc w @ r" by (auto simp: prefix_def)
      then show False using None match_plusplus_old_inc [OF assms] by simp
    qed
    then have "str_in (old_inc w) cs" using 2(3) by simp
    then show ?thesis using 2(1) [OF None] None by simp
  next
    case (Some var)
    note m = match_plusplus_Some [OF Some]
    show ?thesis
    proof (cases "w = var")
      case True
      then show ?thesis using Some by simp
    next
      case False
      have "\<not> begins_in (old_inc var) (old_inc w)"
        using old_inc_old_inc [OF m(3) m(2) assms(1)] False by simp
      then have "count_str (old_inc var @ drop (length var + 6) (c # cs)) (old_inc w) =
          count_str (drop (length var + 6) (c # cs)) (old_inc w)"
        by (rule count_str_skip) (rule old_inc_not_Nil)
      then have "count_str (c # cs) (old_inc w) =
          count_str (drop (length var + 6) (c # cs)) (old_inc w)"
        using m(1) by simp
      then have "str_in (old_inc w) (drop (length var + 6) (c # cs))"
        using 2(3) count_str_pos [OF old_inc_not_Nil, of _ w] by metis
      then show ?thesis using 2(2) [OF Some] Some by simp
    qed
  qed
qed

text \<open>The loop of rule 3 over distinct names: every name gets its entry with the count
  that the buffer had when the loop began, and none of its idioms is left.\<close>

lemma plusplus_step_count:
  assumes "list_all is_word var" and "var \<noteq> []" and "list_all is_word w" and "w \<noteq> []"
  shows "count_str (fst (plusplus_step var (c, f))) (old_inc w) =
     (if w = var then 0 else count_str c (old_inc w))"
proof (cases "w = var")
  case True
  have "apart (old_inc var) (new_inc var)"
    using old_inc_new_inc_apart [OF assms(1,2,1,2)] .
  then have "count_str (replace_all c (old_inc var) (new_inc var)) (old_inc var) = 0"
    by (rule count_replace_all_self) (rule old_inc_not_Nil)
  then show ?thesis
    unfolding plusplus_step_fst fst_conv using True by simp
next
  case False
  have "apart (old_inc w) (old_inc var)" "apart (old_inc w) (new_inc var)"
    using old_inc_apart [OF assms(3,4,1,2)] old_inc_new_inc_apart [OF assms(3,4,1,2)] False
    by auto
  then have "count_str (replace_all c (old_inc var) (new_inc var)) (old_inc w) =
      count_str c (old_inc w)"
    by (rule count_replace_all) (rule old_inc_not_Nil)
  then show ?thesis
    unfolding plusplus_step_fst fst_conv using False by simp
qed

lemma plusplus_step_snd:
  "snd (plusplus_step var (c, f)) =
     f @ map (\<lambda>v. label_3 v (count_str c (old_inc v)))
           (filter (\<lambda>v. 0 < count_str c (old_inc v)) [var])"
  by (simp add: Let_def)

lemma plusplus_loop_result:
  assumes "distinct vars" and "list_all (\<lambda>v. list_all is_word v \<and> v \<noteq> []) vars"
  shows "snd (plusplus_loop vars (c, f)) =
       f @ map (\<lambda>v. label_3 v (count_str c (old_inc v)))
             (filter (\<lambda>v. 0 < count_str c (old_inc v)) vars) \<and>
     (\<forall>w. list_all is_word w \<and> w \<noteq> [] \<longrightarrow>
        count_str (fst (plusplus_loop vars (c, f))) (old_inc w) =
          (if w \<in> set vars then 0 else count_str c (old_inc w)))"
  using assms
proof (induction vars arbitrary: c f)
  case Nil
  then show ?case by simp
next
  case (Cons var vars)
  obtain c' f' where st: "plusplus_step var (c, f) = (c', f')" by (cases "plusplus_step var (c, f)")
  have var: "list_all is_word var" "var \<noteq> []" using Cons.prems(2) by simp_all
  have cnt: "\<And>w. list_all is_word w \<Longrightarrow> w \<noteq> [] \<Longrightarrow>
      count_str c' (old_inc w) = (if w = var then 0 else count_str c (old_inc w))"
    using plusplus_step_count [OF var, of _ c f] st by simp
  have f': "f' = f @ map (\<lambda>v. label_3 v (count_str c (old_inc v)))
        (filter (\<lambda>v. 0 < count_str c (old_inc v)) [var])"
    using plusplus_step_snd [of var c f] st by simp
  have d: "distinct vars" "var \<notin> set vars"
    and ws: "list_all (\<lambda>v. list_all is_word v \<and> v \<noteq> []) vars"
    using Cons.prems by simp_all
  note IH = Cons.IH [OF d(1) ws, of c' f']
  have same: "\<And>v. v \<in> set vars \<Longrightarrow> count_str c' (old_inc v) = count_str c (old_inc v)"
    using cnt ws d(2) by (auto simp: list_all_iff)
  have "map (\<lambda>v. label_3 v (count_str c' (old_inc v)))
        (filter (\<lambda>v. 0 < count_str c' (old_inc v)) vars) =
      map (\<lambda>v. label_3 v (count_str c (old_inc v)))
        (filter (\<lambda>v. 0 < count_str c (old_inc v)) vars)"
    using same by (induction vars) auto
  then have 1: "snd (plusplus_loop (var # vars) (c, f)) =
      f @ map (\<lambda>v. label_3 v (count_str c (old_inc v)))
            (filter (\<lambda>v. 0 < count_str c (old_inc v)) (var # vars))"
    using IH f' st by simp
  have 2: "\<forall>w. list_all is_word w \<and> w \<noteq> [] \<longrightarrow>
      count_str (fst (plusplus_loop (var # vars) (c, f))) (old_inc w) =
        (if w \<in> set (var # vars) then 0 else count_str c (old_inc w))"
    using IH cnt st by auto
  from 1 2 show ?case by blast
qed

lemma plusplus_names_words:
  "distinct (plusplus_names c)"
  "list_all (\<lambda>v. list_all is_word v \<and> v \<noteq> []) (plusplus_names c)"
  "v \<in> set (plusplus_names c) \<Longrightarrow> 0 < count_str c (old_inc v)"
  using findall_sound [of _ c]
  by (auto simp: plusplus_names_def list_all_iff count_str_pos old_inc_not_Nil)

lemma rule_3_result:
  "snd (rule_3 (c, f)) =
     f @ map (\<lambda>v. label_3 v (count_str c (old_inc v))) (plusplus_names c)"
  "list_all is_word w \<Longrightarrow> w \<noteq> [] \<Longrightarrow> count_str (fst (rule_3 (c, f))) (old_inc w) = 0"
proof -
  note r = plusplus_loop_result [OF plusplus_names_words(1,2), of c c f]
  have "filter (\<lambda>v. 0 < count_str c (old_inc v)) (plusplus_names c) = plusplus_names c"
    using plusplus_names_words(3) [of _ c] by (simp add: filter_id_conv)
  then show "snd (rule_3 (c, f)) =
     f @ map (\<lambda>v. label_3 v (count_str c (old_inc v))) (plusplus_names c)"
    using r by (simp add: plusplus_names_def)
  assume w: "list_all is_word w" "w \<noteq> []"
  show "count_str (fst (rule_3 (c, f))) (old_inc w) = 0"
  proof (cases "w \<in> set (plusplus_names c)")
    case True
    then show ?thesis using r w by (simp add: plusplus_names_def)
  next
    case False
    then have "\<not> str_in (old_inc w) c"
      using findall_complete [OF w, of c] by (auto simp: plusplus_names_def)
    then have "count_str c (old_inc w) = 0" by (simp add: count_str_zero old_inc_not_Nil)
    then show ?thesis using r w False by (simp add: plusplus_names_def)
  qed
qed

text \<open>
  C9. The entries that rule 3 appends are those of the distinct captured names in
  ascending order, whatever the order of the idioms in the text; each entry carries the
  number of occurrences of its idiom in the buffer in which rule 3 started.
\<close>

theorem rule_3_entries_sorted:
  "entries_of rule_3 (content, fixes) =
     map (\<lambda>var. label_3 var (count_str content (old_inc var))) (plusplus_names content) \<and>
   sorted_wrt (<) (plusplus_names content) \<and>
   set (plusplus_names content) = set (findall_plusplus content)"
proof -
  have "sorted_wrt (<) (plusplus_names content)"
    unfolding plusplus_names_def
    by (simp add: strict_sorted_iff)
  moreover have "set (plusplus_names content) = set (findall_plusplus content)"
    by (simp add: plusplus_names_def)
  moreover have "entries_of rule_3 (content, fixes) =
      map (\<lambda>var. label_3 var (count_str content (old_inc var))) (plusplus_names content)"
    unfolding entries_of_def rule_3_result(1) by simp
  ultimately show ?thesis by blast
qed

theorem rule_3_entries_sorted_witness:
  "entries_of rule_3 (''((foo++)) ((bar++)) ((foo++))'', []) =
     [label_3 ''bar'' 1, label_3 ''foo'' 2]"
proof -
  have "plusplus_names ''((foo++)) ((bar++)) ((foo++))'' = [''bar'', ''foo'']" by code_simp
  moreover have "count_str ''((foo++)) ((bar++)) ((foo++))'' (old_inc ''bar'') = 1" by code_simp
  moreover have "count_str ''((foo++)) ((bar++)) ((foo++))'' (old_inc ''foo'') = 2" by code_simp
  ultimately show ?thesis
    using rule_3_entries_sorted [of "''((foo++)) ((bar++)) ((foo++))''" "[]"] by simp
qed

section \<open>Texts apart from every idiom and every port match\<close>

lemma apart_sym: "apart a b = apart b a"
  by (auto simp: apart_def)

lemma dropWhile_head: "dropWhile P x \<noteq> [] \<Longrightarrow> \<not> P (hd (dropWhile P x))"
  using hd_dropWhile by blast

lemma clear_of_inc_apart:
  assumes "clear_of_inc x" and "list_all is_word w" and "w \<noteq> []"
  shows "apart (old_inc w) x"
proof -
  from assms(1) have x: "\<not> begins_in x ''(('' " "\<not> begins_in ''(('' x" "\<not> begins_in ''++))'' x"
    "dropWhile is_word x \<noteq> []" "hd (dropWhile is_word x) \<noteq> CHR ''+''"
    by (simp_all add: clear_of_inc_def)
  have 1: "\<not> begins_in x (old_inc w)"
    using x(1) begins_in_append_left [of x "''((''" "w @ ''++))''"] by (auto simp: old_inc_def)
  obtain y r where t: "dropWhile is_word x = y # r" using x(4) by (cases "dropWhile is_word x") auto
  then have y: "\<not> is_word y" "y \<noteq> CHR ''+''"
    using dropWhile_head [OF x(4)] x(5) by simp_all
  have xs: "x = takeWhile is_word x @ y # r"
    using t takeWhile_dropWhile_id [of is_word x] by simp
  have tw: "list_all is_word (takeWhile is_word x)"
    unfolding list_all_iff by (auto dest: set_takeWhileD)
  have 2: "\<not> begins_in (old_inc w) x"
  proof
    assume "begins_in (old_inc w) x"
    then have "begins_in (''(('' @ (w @ ''++))'')) x" by (simp add: old_inc_def)
    then have "begins_in (w @ CHR ''+'' # ''+))'') x"
      using begins_in_append [of "''((''" "w @ ''++))''" x] x(2) by auto
    then have "begins_in (w @ CHR ''+'' # ''+))'') (takeWhile is_word x @ y # r)"
      using xs by simp
    from begins_in_run_run [OF assms(2) tw _ y(1) this]
    have "begins_in ''++))'' x" using y(2) xs by (simp add: not_word)
    with x(3) show False by simp
  qed
  from 1 2 show ?thesis by (simp add: apart_def)
qed

lemma clear_of_port_apart:
  assumes "clear_of_port x" and "list_all is_digit d"
  shows "apart x (old_port d)"
proof -
  from assms(1) have x: "x \<noteq> []" "\<not> begins_in x (''grep '' @ dq @ '':'')"
    "\<not> begins_in (''grep '' @ dq @ '':'') x" "\<not> is_digit (hd x)" "\<not> begins_in dq x"
    by (simp_all add: clear_of_port_def)
  have 1: "\<not> begins_in x (old_port d)"
    using x(2) begins_in_append_left [of x "''grep '' @ dq @ '':''" "d @ dq"]
    by (auto simp: old_port_def)
  have 2: "\<not> begins_in (old_port d) x"
  proof
    assume "begins_in (old_port d) x"
    then have "begins_in ((''grep '' @ dq @ '':'') @ (d @ dq)) x" by (simp add: old_port_def)
    then have "begins_in (d @ dq) x"
      using begins_in_append [of "''grep '' @ dq @ '':''" "d @ dq" x] x(3) by auto
    then show False using begins_in_run [OF assms(2) x(1) x(4), of dq] x(5) by simp
  qed
  from 1 2 show ?thesis by (simp add: apart_def)
qed

lemma clear_of_new_port_apart:
  assumes "clear_of_new_port x" and "list_all is_digit d"
  shows "apart x (fix_port_grep d)"
proof -
  from assms(1) have x: "x \<noteq> []" "\<not> begins_in x (''grep '' @ dq @ ''['')"
    "\<not> begins_in (''grep '' @ dq @ ''[.]'') x" "\<not> is_digit (hd x)"
    "\<not> begins_in (''[[:space:]]'' @ dq) x"
    by (simp_all add: clear_of_new_port_def)
  have 1: "\<not> begins_in x (fix_port_grep d)"
    using x(2) begins_in_append_left [of x "''grep '' @ dq @ ''[''" "''.]'' @ d @ ''[[:space:]]'' @ dq"]
    by (auto simp: fix_port_grep_def)
  have 2: "\<not> begins_in (fix_port_grep d) x"
  proof
    assume "begins_in (fix_port_grep d) x"
    then have "begins_in ((''grep '' @ dq @ ''[.]'') @ (d @ ''[[:space:]]'' @ dq)) x"
      by (simp add: fix_port_grep_def)
    then have "begins_in (d @ ''[[:space:]]'' @ dq) x"
      using begins_in_append [of "''grep '' @ dq @ ''[.]''" "d @ ''[[:space:]]'' @ dq" x] x(3)
      by auto
    then show False
      using begins_in_run [OF assms(2) x(1) x(4), of "''[[:space:]]'' @ dq"] x(5) by simp
  qed
  from 1 2 show ?thesis by (simp add: apart_def)
qed

text \<open>The texts with a captured name against those with a captured port.\<close>

lemma set_old_inc: "set (old_inc w) = set w \<union> {CHR ''('', CHR ''+'', CHR '')''}"
  by (auto simp: old_inc_def)

lemma set_old_port: "set (old_port d) = set d \<union> set (''grep '' @ dq @ '':'')"
  by (auto simp: old_port_def)

lemma set_fix_port_grep:
  "set (fix_port_grep d) = set d \<union> set (''grep '' @ dq @ ''[.]:space'')"
  by (auto simp: fix_port_grep_def)

lemma old_inc_fix_port_apart:
  assumes "list_all is_word w" and "list_all is_digit d"
  shows "apart (old_inc w) (fix_port_grep d)"
proof -
  have "CHR ''('' \<notin> set (fix_port_grep d)"
    using digit_not_in [OF assms(2) not_digit(1)] by (simp add: set_fix_port_grep)
  then have 1: "\<not> begins_in (fix_port_grep d) (old_inc w)"
    by (intro begins_in_absent) (simp_all add: old_inc_def)
  have 2: "\<not> begins_in (old_inc w) (fix_port_grep d)"
  proof
    assume "begins_in (old_inc w) (fix_port_grep d)"
    then have "begins_in (''(('' @ (w @ ''++))'')) (fix_port_grep d)" by (simp add: old_inc_def)
    from begins_in_append [OF this]
    have "begins_in (w @ CHR ''+'' # ''+))'')
        (''grep'' @ CHR '' '' # dq @ ''[.]'' @ d @ ''[[:space:]]'' @ dq)"
      by (simp add: fix_port_grep_def)
    from begins_in_run_run [OF assms(1) _ _ _ this]
    show False by (simp add: not_word is_word_def)
  qed
  from 1 2 show ?thesis by (simp add: apart_def)
qed

lemma old_port_old_inc_apart:
  assumes "list_all is_word w" and "list_all is_digit d"
  shows "apart (old_port d) (old_inc w)"
proof -
  have "CHR ''('' \<notin> set (old_port d)"
    using digit_not_in [OF assms(2) not_digit(1)] by (simp add: set_old_port)
  then have 1: "\<not> begins_in (old_port d) (old_inc w)"
    by (intro begins_in_absent) (simp_all add: old_inc_def)
  have 2: "\<not> begins_in (old_inc w) (old_port d)"
  proof
    assume "begins_in (old_inc w) (old_port d)"
    then have "begins_in (''(('' @ (w @ ''++))'')) (old_port d)" by (simp add: old_inc_def)
    from begins_in_append [OF this]
    have "begins_in (w @ CHR ''+'' # ''+))'') (''grep'' @ CHR '' '' # dq @ '':'' @ d @ dq)"
      by (simp add: old_port_def)
    from begins_in_run_run [OF assms(1) _ _ _ this]
    show False by (simp add: not_word is_word_def)
  qed
  from 1 2 show ?thesis by (simp add: apart_def)
qed

lemma old_port_fix_port_apart:
  assumes "list_all is_digit d'" and "list_all is_digit d"
  shows "apart (old_port d') (fix_port_grep d)"
proof -
  have 1: "\<not> begins_in (old_port d') (fix_port_grep d)"
  proof
    assume "begins_in (old_port d') (fix_port_grep d)"
    then have "begins_in ((''grep '' @ dq @ '':'') @ (d' @ dq))
        ((''grep '' @ dq @ ''['') @ (''.]'' @ d @ ''[[:space:]]'' @ dq))"
      by (simp add: old_port_def fix_port_grep_def)
    then have "begins_in ((''grep '' @ dq @ '':'') @ (d' @ dq)) (''grep '' @ dq @ ''['')"
      by (rule begins_in_append_left)
    from begins_in_append [OF this]
    have "begins_in (d' @ dq) (''grep '' @ dq @ ''['')" by simp
    then show False using begins_in_run [OF assms(1), of "''grep '' @ dq @ ''[''" dq]
      by (simp add: not_digit)
  qed
  have 2: "\<not> begins_in (fix_port_grep d) (old_port d')"
  proof
    assume "begins_in (fix_port_grep d) (old_port d')"
    then have "begins_in ((''grep '' @ dq @ ''[.]'') @ (d @ ''[[:space:]]'' @ dq))
        ((''grep '' @ dq @ '':'') @ (d' @ dq))"
      by (simp add: old_port_def fix_port_grep_def)
    then have "begins_in ((''grep '' @ dq @ ''[.]'') @ (d @ ''[[:space:]]'' @ dq))
        (''grep '' @ dq @ '':'')"
      by (rule begins_in_append_left)
    from begins_in_append [OF this]
    have "begins_in (d @ ''[[:space:]]'' @ dq) (''grep '' @ dq @ '':'')" by simp
    then show False
      using begins_in_run [OF assms(2), of "''grep '' @ dq @ '':''" "''[[:space:]]'' @ dq"]
      by (simp add: not_digit)
  qed
  from 1 2 show ?thesis by (simp add: apart_def)
qed

lemma old_port_tail:
  assumes "list_all is_digit d'"
  shows "\<not> begins_in (tl (old_port d')) (old_port d)"
proof -
  have "CHR ''g'' \<notin> set (tl (old_port d'))"
    using digit_not_in [OF assms not_digit(13)] by (simp add: old_port_def)
  then show ?thesis by (intro begins_in_absent) (simp_all add: old_port_def)
qed

lemma old_echo0_new_inc_apart:
  assumes "list_all is_word u" and "u \<noteq> []"
  shows "apart old_echo0 (new_inc u)"
proof -
  have "CHR ''|'' \<notin> set (new_inc u)"
    using word_not_in [OF assms(1) not_word(12)] by (simp add: new_inc_def)
  then have 1: "\<not> begins_in (new_inc u) old_echo0"
    by (intro begins_in_absent) (simp_all add: old_echo0_def)
  have h: "\<And>c r. \<not> is_word c \<Longrightarrow> \<not> agree (c # r) (new_inc u)"
    using agree_run_other [OF assms(1,2)] by (simp add: new_inc_def)
  have e: "\<And>x. list_all is_word x \<Longrightarrow> \<not> agree (x @ CHR '' '' # r) (new_inc u)" for r
    using agree_runs [OF _ assms(1), of _ "CHR '' ''" "CHR ''=''"]
    by (simp add: new_inc_def not_word)
  have 2: "\<not> begins_in old_echo0 (new_inc u)"
  proof
    assume "begins_in old_echo0 (new_inc u)"
    then have "agree (''echo'' @ CHR '' '' # dq @ ''0'' @ dq @ '')'') (new_inc u) \<or>
        agree (''cho'' @ CHR '' '' # dq @ ''0'' @ dq @ '')'') (new_inc u) \<or>
        agree (''ho'' @ CHR '' '' # dq @ ''0'' @ dq @ '')'') (new_inc u) \<or>
        agree (''o'' @ CHR '' '' # dq @ ''0'' @ dq @ '')'') (new_inc u) \<or>
        agree (''0'' @ dq @ '')'') (new_inc u)"
      using h by (simp add: old_echo0_def not_word)
    moreover have "\<not> agree (''0'' @ CHR 0x22 # '')'') (new_inc u)"
      using agree_runs [OF _ assms(1), of "''0''" "CHR 0x22" "CHR ''=''"]
      by (simp add: new_inc_def not_word is_word_def)
    ultimately show False
      using e [of "''echo''"] e [of "''cho''"] e [of "''ho''"] e [of "''o''"]
      by (simp add: is_word_def)
  qed
  from 1 2 show ?thesis by (simp add: apart_def)
qed

section \<open>The substitution of rule 7a\<close>

lemma old_port_not_Nil: "old_port d \<noteq> []"
  by (simp add: old_port_def)

lemma length_old_port: "length (old_port d) = length d + 8"
  by (simp add: old_port_def)

lemma match_port_old:
  assumes "match_port s = Some d"
  shows "s = old_port d @ drop (length d + 8) s"
  using match_port_Some(1) [OF assms] by (simp add: old_port_def)

lemma match_port_old_port:
  assumes "list_all is_digit d" and "d \<noteq> []"
  shows "match_port (old_port d @ rest) = Some d"
  using assms takeWhile_run [OF assms(1), of "CHR 0x22" rest]
  by (simp add: match_port_def old_port_def not_digit)

lemma match_port_prefix:
  assumes "list_all is_digit d" and "d \<noteq> []" and "prefix (old_port d) s"
  shows "match_port s = Some d"
proof -
  from assms(3) obtain r where "s = old_port d @ r" by (auto simp: prefix_def)
  then show ?thesis using match_port_old_port [OF assms(1,2)] by simp
qed

text \<open>The first match of the port expression, if there is one.\<close>

lemma re_sub_port_decomp:
  "(re_sub_port s = s \<and>
      (\<forall>d. list_all is_digit d \<and> d \<noteq> [] \<longrightarrow> \<not> str_in (old_port d) s)) \<or>
   (\<exists>u d v. s = u @ old_port d @ v \<and> list_all is_digit d \<and> d \<noteq> [] \<and>
      length v < length s \<and>
      (\<forall>d'. list_all is_digit d' \<and> d' \<noteq> [] \<longrightarrow> \<not> str_in (old_port d') u) \<and>
      re_sub_port s = u @ fix_port_grep d @ re_sub_port v)"
proof (induction s)
  case Nil
  then show ?case by (simp add: old_port_not_Nil)
next
  case (Cons c cs)
  show ?case
  proof (cases "match_port (c # cs)")
    case (Some d)
    note m = match_port_Some [OF Some] match_port_old [OF Some]
    have "c # cs = [] @ old_port d @ drop (length d + 8) (c # cs)" using m(4) by simp
    moreover have "length (drop (length d + 8) (c # cs)) < length (c # cs)" by simp
    moreover have "\<forall>d'. list_all is_digit d' \<and> d' \<noteq> [] \<longrightarrow> \<not> str_in (old_port d') []"
      by (simp add: old_port_not_Nil)
    moreover have "re_sub_port (c # cs) =
        [] @ fix_port_grep d @ re_sub_port (drop (length d + 8) (c # cs))"
      using Some by simp
    ultimately show ?thesis using m(2,3) by blast
  next
    case None
    have np: "\<not> prefix (old_port d) (c # cs)" if "list_all is_digit d" "d \<noteq> []" for d
      using match_port_prefix [OF that] None by auto
    from Cons.IH show ?thesis
    proof
      assume a: "re_sub_port cs = cs \<and>
        (\<forall>d. list_all is_digit d \<and> d \<noteq> [] \<longrightarrow> \<not> str_in (old_port d) cs)"
      then have "re_sub_port (c # cs) = c # cs" using None by simp
      moreover have "\<forall>d. list_all is_digit d \<and> d \<noteq> [] \<longrightarrow> \<not> str_in (old_port d) (c # cs)"
        using a np by simp
      ultimately show ?thesis by blast
    next
      assume "\<exists>u d v. cs = u @ old_port d @ v \<and> list_all is_digit d \<and> d \<noteq> [] \<and>
        length v < length cs \<and>
        (\<forall>d'. list_all is_digit d' \<and> d' \<noteq> [] \<longrightarrow> \<not> str_in (old_port d') u) \<and>
        re_sub_port cs = u @ fix_port_grep d @ re_sub_port v"
      then obtain u d v where uv: "cs = u @ old_port d @ v" "list_all is_digit d" "d \<noteq> []"
        "length v < length cs"
        "\<forall>d'. list_all is_digit d' \<and> d' \<noteq> [] \<longrightarrow> \<not> str_in (old_port d') u"
        "re_sub_port cs = u @ fix_port_grep d @ re_sub_port v"
        by blast
      have "\<not> str_in (old_port e) (c # u)" if e: "list_all is_digit e" "e \<noteq> []" for e
      proof
        assume "str_in (old_port e) (c # u)"
        then have "prefix (old_port e) (c # u)" using uv(5) e by simp
        then have "prefix (old_port e) ((c # u) @ old_port d @ v)" by (rule prefix_prefix)
        then show False using np [OF e] uv(1) by simp
      qed
      moreover have "c # cs = (c # u) @ old_port d @ v" using uv(1) by simp
      moreover have "length v < length (c # cs)" using uv(4) by simp
      moreover have "re_sub_port (c # cs) = (c # u) @ fix_port_grep d @ re_sub_port v"
        using None uv(6) by simp
      ultimately show ?thesis using uv(2,3) by blast
    qed
  qed
qed

lemma re_sub_port_first:
  assumes "re_sub_port s \<noteq> s \<or> (\<exists>d. list_all is_digit d \<and> d \<noteq> [] \<and> str_in (old_port d) s)"
  obtains u d v where "s = u @ old_port d @ v" "list_all is_digit d" "d \<noteq> []"
    "length v < length s"
    "\<And>e. list_all is_digit e \<Longrightarrow> e \<noteq> [] \<Longrightarrow> \<not> str_in (old_port e) u"
    "re_sub_port s = u @ fix_port_grep d @ re_sub_port v"
  using re_sub_port_decomp [of s] assms by blast

lemma re_sub_port_unchanged:
  assumes "\<And>d. list_all is_digit d \<Longrightarrow> d \<noteq> [] \<Longrightarrow> \<not> str_in (old_port d) s"
  shows "re_sub_port s = s"
proof (rule ccontr)
  assume "re_sub_port s \<noteq> s"
  then obtain u d v where "s = u @ old_port d @ v" "list_all is_digit d" "d \<noteq> []"
    using re_sub_port_first [of s] by metis
  then show False using assms [of d] str_in_middle [of "old_port d" u v] by simp
qed

lemma absent_re_sub_port:
  assumes "\<And>d. list_all is_digit d \<Longrightarrow> d \<noteq> [] \<Longrightarrow> apart q (fix_port_grep d)" and "q \<noteq> []"
  shows "\<not> str_in q s \<Longrightarrow> \<not> str_in q (re_sub_port s)"
proof (induction s rule: length_induct)
  case (1 s)
  show ?case
  proof (cases "re_sub_port s = s")
    case True
    then show ?thesis using 1(2) by simp
  next
    case False
    then obtain u d v where uv: "s = u @ old_port d @ v" "list_all is_digit d" "d \<noteq> []"
      "length v < length s" "re_sub_port s = u @ fix_port_grep d @ re_sub_port v"
      using re_sub_port_first [of s] by metis
    have n: "\<not> str_in q u" "\<not> str_in q v"
      using 1(2) uv(1) str_in_append [of q] by (metis, metis)
    then have "\<not> str_in q (re_sub_port v)" using 1(1) uv(4) by simp
    then show ?thesis
      using n(1) uv(5) str_in_apart [OF assms(1) [OF uv(2,3)] assms(2)] by simp
  qed
qed


text \<open>After the substitution no match of the port expression is left.\<close>

lemma re_sub_port_leaves_none:
  assumes "list_all is_digit p" and "p \<noteq> []"
  shows "\<not> str_in (old_port p) (re_sub_port s)"
proof (induction s rule: length_induct)
  case (1 s)
  show ?case
  proof (cases "\<exists>d. list_all is_digit d \<and> d \<noteq> [] \<and> str_in (old_port d) s")
    case False
    then have "re_sub_port s = s" using re_sub_port_unchanged [of s] by blast
    then show ?thesis using False assms by auto
  next
    case True
    then obtain u d v where uv: "s = u @ old_port d @ v" "list_all is_digit d" "d \<noteq> []"
      "length v < length s"
      "\<And>e. list_all is_digit e \<Longrightarrow> e \<noteq> [] \<Longrightarrow> \<not> str_in (old_port e) u"
      "re_sub_port s = u @ fix_port_grep d @ re_sub_port v"
      using re_sub_port_first [of s] by metis
    have "\<not> str_in (old_port p) u" using uv(5) assms by simp
    moreover have "\<not> str_in (old_port p) (re_sub_port v)" using 1 uv(4) by simp
    ultimately show ?thesis
      using uv(6) str_in_apart [OF old_port_fix_port_apart [OF assms(1) uv(2)] old_port_not_Nil]
      by simp
  qed
qed

text \<open>Every occurrence of a port match is rewritten where it stands.\<close>

lemma re_sub_port_occurrence:
  assumes "list_all is_digit d" and "d \<noteq> []"
  shows "re_sub_port (u @ old_port d @ v) = re_sub_port u @ fix_port_grep d @ re_sub_port v"
proof (induction u rule: length_induct)
  case (1 u)
  show ?case
  proof (cases u)
    case Nil
    have "drop (length d + 8) (old_port d @ v) = v"
      unfolding length_old_port [symmetric] by simp
    then show ?thesis
      using Nil match_port_old_port [OF assms, of v] old_port_not_Nil [of d]
      by (cases "old_port d @ v") simp_all
  next
    case (Cons c u')
    show ?thesis
    proof (cases "match_port u")
      case (Some d1)
      note m = match_port_Some [OF Some] match_port_old [OF Some]
      define u2 where "u2 = drop (length d1 + 8) u"
      have u: "u = old_port d1 @ u2" using m(4) by (simp add: u2_def)
      have "length u2 < length u" using u length_old_port [of d1] by simp
      then have IH: "re_sub_port (u2 @ old_port d @ v) =
          re_sub_port u2 @ fix_port_grep d @ re_sub_port v"
        using 1 by simp
      have "match_port (u @ old_port d @ v) = Some d1"
        using match_port_old_port [OF m(3,2), of "u2 @ old_port d @ v"] u by simp
      moreover have "drop (length d1 + 8) (u @ old_port d @ v) = u2 @ old_port d @ v"
        unfolding length_old_port [symmetric] using u by simp
      ultimately have "re_sub_port (u @ old_port d @ v) =
          fix_port_grep d1 @ re_sub_port (u2 @ old_port d @ v)"
        using Cons by simp
      moreover have "re_sub_port u = fix_port_grep d1 @ re_sub_port u2"
        using Some Cons u2_def by simp
      ultimately show ?thesis using IH by simp
    next
      case None
      have "match_port (u @ old_port d @ v) = None"
      proof (rule ccontr)
        assume "match_port (u @ old_port d @ v) \<noteq> None"
        then obtain d1 where s: "match_port (u @ old_port d @ v) = Some d1" by auto
        note m = match_port_Some [OF s] match_port_old [OF s]
        from m(4) have p: "prefix (old_port d1) (u @ old_port d @ v)"
          by (metis prefixI)
        have "\<not> prefix (old_port d1) u"
          using match_port_prefix [OF m(3,2)] None by auto
        with p obtain x where x: "old_port d1 = u @ x" "x \<noteq> []" "prefix x (old_port d @ v)"
          by (metis append_Nil2 prefix_append prefix_order.order_refl)
        have "agree x (old_port d)"
          using x(3) prefix_append_agree [of x "old_port d" v] by (simp add: agree_sym)
        moreover have "tl (old_port d1) = u' @ x" using x(1) Cons by simp
        ultimately have "begins_in (tl (old_port d1)) (old_port d)"
          using x(2) unfolding begins_in_iff by blast
        then show False using old_port_tail [OF m(3)] by simp
      qed
      moreover have "re_sub_port (u' @ old_port d @ v) =
          re_sub_port u' @ fix_port_grep d @ re_sub_port v"
        using 1 Cons by simp
      ultimately show ?thesis using None Cons by simp
    qed
  qed
qed

section \<open>The script as a whole\<close>

text \<open>
  C7. If the target cannot be read, the script ends with the error that the read raised:
  nothing has been printed and no file has been written.
\<close>

theorem unreadable_target_aborts:
  assumes "read_result w (target_of argv) = Inl e"
  shows "main argv w = \<lparr>files = w, stdout = [], status = uncaught e\<rparr>"
  using assms by (simp add: main_def)

theorem unreadable_target_aborts_witness:
  "main [''fix-illumos-compat.py'', ''missing.sh'']
     \<lparr>read_result = (\<lambda>p. Inl FileNotFoundError), write_result = (\<lambda>p. None)\<rparr> =
   \<lparr>files = \<lparr>read_result = (\<lambda>p. Inl FileNotFoundError), write_result = (\<lambda>p. None)\<rparr>,
    stdout = [], status = uncaught FileNotFoundError\<rparr>"
  using unreadable_target_aborts
    [of "\<lparr>read_result = (\<lambda>p. Inl FileNotFoundError), write_result = (\<lambda>p. None)\<rparr>"
        "[''fix-illumos-compat.py'', ''missing.sh'']" FileNotFoundError]
  by simp



section \<open>What the whole run keeps and removes\<close>

lemma clear_of_inc_pats:
  "clear_of_inc old_1a" "clear_of_inc new_1a" "clear_of_inc old_1b" "clear_of_inc new_1b"
  "clear_of_inc old_1c" "clear_of_inc new_1c" "clear_of_inc old_echo0" "clear_of_inc new_true"
  "clear_of_inc new_guard" "clear_of_inc new_sort" "clear_of_inc new_ant"
  "clear_of_inc new_tuln" "clear_of_inc new_egrep"
  by code_simp+

lemma clear_of_port_pats:
  "clear_of_port old_1a" "clear_of_port old_1b" "clear_of_port old_1c"
  "clear_of_port old_echo0" "clear_of_port old_guard" "clear_of_port old_sort"
  "clear_of_port old_ant" "clear_of_port old_tuln" "clear_of_port new_egrep"
  by code_simp+

lemma clear_of_new_port_pats:
  "clear_of_new_port old_echo0" "clear_of_new_port old_guard" "clear_of_new_port old_sort"
  "clear_of_new_port old_ant" "clear_of_new_port old_tuln" "clear_of_new_port old_egrep"
  by code_simp+

lemma apart_self:
  "apart old_echo0 new_true" "apart old_guard new_guard" "apart old_sort new_sort"
  "apart old_ant new_ant" "apart old_tuln new_tuln" "apart old_egrep new_egrep"
  by code_simp+

lemma apart_later:
  "apart old_echo0 new_guard" "apart old_echo0 new_sort" "apart old_echo0 new_ant"
  "apart old_echo0 new_tuln" "apart old_echo0 new_egrep"
  "apart old_guard new_sort" "apart old_guard new_ant" "apart old_guard new_tuln"
  "apart old_guard new_egrep"
  "apart old_sort new_ant" "apart old_sort new_tuln" "apart old_sort new_egrep"
  "apart old_ant new_tuln" "apart old_ant new_egrep"
  "apart old_tuln new_egrep"
  by code_simp+

text \<open>The run in three parts: the rules before rule 3, rule 3, the rules after it.\<close>

lemma patcher_parts: "patcher original = rules_4_to_7b (rule_3 (before_rule_3 original))"
  by (simp add: patcher_def rules_4_to_7b_def before_rule_3_def)

lemma before_rule_3_fst:
  "fst (before_rule_3 s) =
     replace_all (replace_first (replace_first (replace_first s old_1a new_1a) old_1b new_1b)
       old_1c new_1c) old_echo0 new_true"
  unfolding before_rule_3_def rule_fst by simp

lemma rules_4_to_7b_fst:
  "fst (rules_4_to_7b st) =
     replace_all (re_sub_port (replace_all (replace_all (replace_all
       (replace_all (fst st) old_guard new_guard) old_sort new_sort) old_ant new_ant)
       old_tuln new_tuln)) old_egrep new_egrep"
  unfolding rules_4_to_7b_def rule_fst by simp

lemma rule_3_fold:
  "fst (rule_3 (c, f)) =
     fold (\<lambda>var c. replace_all c (old_inc var) (new_inc var)) (plusplus_names c) c"
  unfolding rule_3_fst plusplus_names_def by simp

lemma fold_inc_invariant:
  assumes "list_all (\<lambda>v. list_all is_word v \<and> v \<noteq> []) vars" and "I c"
    and "\<And>v c. list_all is_word v \<Longrightarrow> v \<noteq> [] \<Longrightarrow> I c \<Longrightarrow>
      I (replace_all c (old_inc v) (new_inc v))"
  shows "I (fold (\<lambda>var c. replace_all c (old_inc var) (new_inc var)) vars c)"
  using assms(1,2)
proof (induction vars arbitrary: c)
  case Nil
  then show ?case by simp
next
  case (Cons v vars)
  then show ?case using assms(3) by simp
qed

lemma absent_rule_3:
  assumes "\<And>u. list_all is_word u \<Longrightarrow> u \<noteq> [] \<Longrightarrow> apart q (new_inc u)" and "q \<noteq> []"
    and "\<not> str_in q c"
  shows "\<not> str_in q (fst (rule_3 (c, f)))"
  unfolding rule_3_fold
  by (rule fold_inc_invariant [OF plusplus_names_words(2)], rule assms(3))
     (simp add: absent_replace_all [OF assms(1) assms(2) old_inc_not_Nil])

lemma kept_rule_3:
  assumes "\<And>u. list_all is_word u \<Longrightarrow> u \<noteq> [] \<Longrightarrow> apart q (old_inc u)" and "q \<noteq> []"
    and "str_in q c"
  shows "str_in q (fst (rule_3 (c, f)))"
  unfolding rule_3_fold
  by (rule fold_inc_invariant [OF plusplus_names_words(2)], rule assms(3))
     (simp add: kept_replace_all [OF assms(1) assms(2)])

lemma absent_tail:
  assumes "q \<noteq> []" and "apart q new_guard" and "apart q new_sort" and "apart q new_ant"
    and "apart q new_tuln"
    and "\<And>d. list_all is_digit d \<Longrightarrow> d \<noteq> [] \<Longrightarrow> apart q (fix_port_grep d)"
    and "apart q new_egrep" and "\<not> str_in q (fst st)"
  shows "\<not> str_in q (fst (rules_4_to_7b st))"
  unfolding rules_4_to_7b_fst
  by (intro absent_replace_all absent_re_sub_port assms pats_not_Nil)


lemma kept_head:
  assumes "q \<noteq> []" and "apart q old_1a" and "apart q old_1b" and "apart q old_1c"
    and "apart q old_echo0" and "str_in q s"
  shows "str_in q (fst (before_rule_3 s))"
  unfolding before_rule_3_fst
  by (intro kept_replace_all kept_replace_first assms)


text \<open>None of the idioms of rule 3 is left at the end, for any name.\<close>

lemma no_idiom_left:
  assumes "list_all is_word w" and "w \<noteq> []"
  shows "\<not> str_in (old_inc w) (fst (patcher s))"
proof -
  have "count_str (fst (rule_3 (before_rule_3 s))) (old_inc w) = 0"
    using rule_3_result(2) [OF assms, of "fst (before_rule_3 s)" "snd (before_rule_3 s)"]
    by simp
  then have "\<not> str_in (old_inc w) (fst (rule_3 (before_rule_3 s)))"
    by (simp add: count_str_zero old_inc_not_Nil)
  then show ?thesis
    unfolding patcher_parts
    by (intro absent_tail clear_of_inc_apart [OF _ assms] clear_of_inc_pats
        old_inc_fix_port_apart [OF assms(1)] old_inc_not_Nil)
qed

text \<open>No match of the port expression is left at the end, for any port.\<close>

lemma no_port_left:
  assumes "list_all is_digit d" and "d \<noteq> []"
  shows "\<not> str_in (old_port d) (fst (patcher s))"
  unfolding patcher_parts rules_4_to_7b_fst
  by (intro absent_replace_all re_sub_port_leaves_none assms old_port_not_Nil pats_not_Nil
      clear_of_port_apart [THEN apart_sym [THEN iffD1]] clear_of_port_pats)

section \<open>The port patterns of rule 7a\<close>

text \<open>
  C5. Every occurrence of \<open>grep ":<digits>"\<close> is rewritten to
  \<open>grep "[.]<digits>[[:space:]]"\<close> with the same digits: rule 7a rewrites an occurrence
  where it stands, whatever is before and after it; an input text that contains the old
  form for a port has the new form for that port in the patched content; and the patched
  content has no old form left, for any port. The ports 80 and 8080 are instances.
\<close>

theorem port_grep_rewritten:
  assumes "list_all is_digit port" and "port \<noteq> []"
  shows "re_sub_port (u @ old_port port @ v) =
           re_sub_port u @ fix_port_grep port @ re_sub_port v \<and>
         (str_in (old_port port) original \<longrightarrow>
            str_in (fix_port_grep port) (fst (patcher original))) \<and>
         \<not> str_in (old_port port) (fst (patcher original))"
proof (intro conjI impI)
  show "re_sub_port (u @ old_port port @ v) =
      re_sub_port u @ fix_port_grep port @ re_sub_port v"
    using assms by (rule re_sub_port_occurrence)
  show "\<not> str_in (old_port port) (fst (patcher original))"
    using assms by (rule no_port_left)
next
  assume a: "str_in (old_port port) original"
  note ap = clear_of_port_apart [OF _ assms(1), THEN apart_sym [THEN iffD1]]
  have "str_in (old_port port) (fst (before_rule_3 original))"
    by (intro kept_head ap clear_of_port_pats old_port_not_Nil a)
  then have "str_in (old_port port) (fst (rule_3 (before_rule_3 original)))"
    using kept_rule_3 [OF old_port_old_inc_apart [OF _ assms(1)] old_port_not_Nil,
        of "fst (before_rule_3 original)" "snd (before_rule_3 original)"]
    by simp
  then have "str_in (old_port port)
      (replace_all (replace_all (replace_all (replace_all
         (fst (rule_3 (before_rule_3 original))) old_guard new_guard) old_sort new_sort)
         old_ant new_ant) old_tuln new_tuln)"
    by (intro kept_replace_all ap clear_of_port_pats old_port_not_Nil)
  then obtain x y where
    "replace_all (replace_all (replace_all (replace_all
         (fst (rule_3 (before_rule_3 original))) old_guard new_guard) old_sort new_sort)
         old_ant new_ant) old_tuln new_tuln = x @ old_port port @ y"
    unfolding str_in_exists by blast
  then have "str_in (fix_port_grep port)
      (re_sub_port (replace_all (replace_all (replace_all (replace_all
         (fst (rule_3 (before_rule_3 original))) old_guard new_guard) old_sort new_sort)
         old_ant new_ant) old_tuln new_tuln))"
    using re_sub_port_occurrence [OF assms, of x y] by (simp add: str_in_middle)
  then show "str_in (fix_port_grep port) (fst (patcher original))"
    unfolding patcher_parts rules_4_to_7b_fst
    by (intro kept_replace_all
        clear_of_new_port_apart [OF clear_of_new_port_pats(6) assms(1),
          THEN apart_sym [THEN iffD1]])
       (simp_all add: fix_port_grep_def)
qed

theorem port_grep_rewritten_witness:
  "str_in (''grep '' @ dq @ ''[.]80[[:space:]]'' @ dq)
     (fst (patcher (''a | grep '' @ dq @ '':80'' @ dq @ ''; b | grep '' @ dq @ '':8080'' @ dq))) \<and>
   str_in (''grep '' @ dq @ ''[.]8080[[:space:]]'' @ dq)
     (fst (patcher (''a | grep '' @ dq @ '':80'' @ dq @ ''; b | grep '' @ dq @ '':8080'' @ dq)))"
proof -
  have d: "list_all is_digit ''80''" "list_all is_digit ''8080''"
    by (simp_all add: is_digit_def)
  have 1: "str_in (old_port ''80'')
      (''a | grep '' @ dq @ '':80'' @ dq @ ''; b | grep '' @ dq @ '':8080'' @ dq)"
    by code_simp
  have 2: "str_in (old_port ''8080'')
      (''a | grep '' @ dq @ '':80'' @ dq @ ''; b | grep '' @ dq @ '':8080'' @ dq)"
    by code_simp
  have n: "''80'' \<noteq> []" "''8080'' \<noteq> []" by simp_all
  note a = port_grep_rewritten [OF d(1) n(1), THEN conjunct2, THEN conjunct1, THEN mp, OF 1]
  note b = port_grep_rewritten [OF d(2) n(2), THEN conjunct2, THEN conjunct1, THEN mp, OF 2]
  from a b show ?thesis by (simp add: fix_port_grep_def)
qed

section \<open>The entries of a whole run\<close>








section \<open>The increment idioms of rule 3\<close>










section \<open>A second run\<close>

lemma replace_all_leaves_none:
  assumes "apart old new" and "old \<noteq> []"
  shows "\<not> str_in old (replace_all s old new)"
  using count_replace_all_self [OF assms, of s] by (simp add: count_str_zero assms(2))

text \<open>After a run none of the patterns of the rules 2 to 7b is in the buffer.\<close>

lemma global_patterns_removed:
  "\<not> str_in old_echo0 (fst (patcher s))"
  "findall_plusplus (fst (patcher s)) = []"
  "\<not> str_in old_guard (fst (patcher s))"
  "\<not> str_in old_sort (fst (patcher s))"
  "\<not> str_in old_ant (fst (patcher s))"
  "\<not> str_in old_tuln (fst (patcher s))"
  "re_sub_port (fst (patcher s)) = fst (patcher s)"
  "\<not> str_in old_egrep (fst (patcher s))"
proof -
  define c5 where "c5 = fst (rule_3 (before_rule_3 s))"
  define c6 where "c6 = replace_all c5 old_guard new_guard"
  define c7 where "c7 = replace_all c6 old_sort new_sort"
  define c8 where "c8 = replace_all c7 old_ant new_ant"
  define c9 where "c9 = replace_all c8 old_tuln new_tuln"
  define c10 where "c10 = re_sub_port c9"
  have out: "fst (patcher s) = replace_all c10 old_egrep new_egrep"
    unfolding patcher_parts rules_4_to_7b_fst c10_def c9_def c8_def c7_def c6_def c5_def ..
  note np = clear_of_new_port_apart [OF _ _]
  \<comment> \<open>rule 2\<close>
  have "\<not> str_in old_echo0 (fst (before_rule_3 s))"
    unfolding before_rule_3_fst using apart_self(1) pats_not_Nil(4)
    by (rule replace_all_leaves_none)
  then have "\<not> str_in old_echo0 c5"
    unfolding c5_def
    using absent_rule_3 [OF old_echo0_new_inc_apart pats_not_Nil(4),
        of "fst (before_rule_3 s)" "snd (before_rule_3 s)"]
    unfolding prod.collapse by blast
  then have "\<not> str_in old_echo0 (fst (rules_4_to_7b (c5, [])))"
    using pats_not_Nil(4) apart_later(1,2,3,4) np [OF clear_of_new_port_pats(1)] apart_later(5)
    by (intro absent_tail) simp_all
  then show "\<not> str_in old_echo0 (fst (patcher s))"
    unfolding out rules_4_to_7b_fst c10_def c9_def c8_def c7_def c6_def by simp
  \<comment> \<open>rule 3\<close>
  show "findall_plusplus (fst (patcher s)) = []"
  proof (rule ccontr)
    assume "findall_plusplus (fst (patcher s)) \<noteq> []"
    then obtain w where "w \<in> set (findall_plusplus (fst (patcher s)))"
      by (cases "findall_plusplus (fst (patcher s))") auto
    then have "list_all is_word w \<and> w \<noteq> [] \<and> str_in (old_inc w) (fst (patcher s))"
      by (rule findall_sound)
    then show False using no_idiom_left by blast
  qed
  \<comment> \<open>rule 4\<close>
  have "\<not> str_in old_guard c6"
    unfolding c6_def using apart_self(2) pats_not_Nil(5) by (rule replace_all_leaves_none)
  then have "\<not> str_in old_guard c7"
    unfolding c7_def using apart_later(6) pats_not_Nil(5,6) by (intro absent_replace_all)
  then have "\<not> str_in old_guard c8"
    unfolding c8_def using apart_later(7) pats_not_Nil(5,7) by (intro absent_replace_all)
  then have "\<not> str_in old_guard c9"
    unfolding c9_def using apart_later(8) pats_not_Nil(5,8) by (intro absent_replace_all)
  then have "\<not> str_in old_guard c10"
    unfolding c10_def using np [OF clear_of_new_port_pats(2)] pats_not_Nil(5)
    by (intro absent_re_sub_port)
  then show "\<not> str_in old_guard (fst (patcher s))"
    unfolding out using apart_later(9) pats_not_Nil(5,9) by (intro absent_replace_all)
  \<comment> \<open>rule 5\<close>
  have "\<not> str_in old_sort c7"
    unfolding c7_def using apart_self(3) pats_not_Nil(6) by (rule replace_all_leaves_none)
  then have "\<not> str_in old_sort c8"
    unfolding c8_def using apart_later(10) pats_not_Nil(6,7) by (intro absent_replace_all)
  then have "\<not> str_in old_sort c9"
    unfolding c9_def using apart_later(11) pats_not_Nil(6,8) by (intro absent_replace_all)
  then have "\<not> str_in old_sort c10"
    unfolding c10_def using np [OF clear_of_new_port_pats(3)] pats_not_Nil(6)
    by (intro absent_re_sub_port)
  then show "\<not> str_in old_sort (fst (patcher s))"
    unfolding out using apart_later(12) pats_not_Nil(6,9) by (intro absent_replace_all)
  \<comment> \<open>rule 6a\<close>
  have "\<not> str_in old_ant c8"
    unfolding c8_def using apart_self(4) pats_not_Nil(7) by (rule replace_all_leaves_none)
  then have "\<not> str_in old_ant c9"
    unfolding c9_def using apart_later(13) pats_not_Nil(7,8) by (intro absent_replace_all)
  then have "\<not> str_in old_ant c10"
    unfolding c10_def using np [OF clear_of_new_port_pats(4)] pats_not_Nil(7)
    by (intro absent_re_sub_port)
  then show "\<not> str_in old_ant (fst (patcher s))"
    unfolding out using apart_later(14) pats_not_Nil(7,9) by (intro absent_replace_all)
  \<comment> \<open>rule 6b\<close>
  have "\<not> str_in old_tuln c9"
    unfolding c9_def using apart_self(5) pats_not_Nil(8) by (rule replace_all_leaves_none)
  then have "\<not> str_in old_tuln c10"
    unfolding c10_def using np [OF clear_of_new_port_pats(5)] pats_not_Nil(8)
    by (intro absent_re_sub_port)
  then show "\<not> str_in old_tuln (fst (patcher s))"
    unfolding out using apart_later(15) pats_not_Nil(8,9) by (intro absent_replace_all)
  \<comment> \<open>rule 7a\<close>
  show "re_sub_port (fst (patcher s)) = fst (patcher s)"
    by (rule re_sub_port_unchanged) (rule no_port_left)
  \<comment> \<open>rule 7b\<close>
  show "\<not> str_in old_egrep (fst (patcher s))"
    unfolding out using apart_self(6) pats_not_Nil(9) by (rule replace_all_leaves_none)
qed

lemma patcher_noop:
  assumes "\<not> str_in old_1a c" and "\<not> str_in old_1b c" and "\<not> str_in old_1c c"
    and "\<not> str_in old_echo0 c" and "findall_plusplus c = []" and "\<not> str_in old_guard c"
    and "\<not> str_in old_sort c" and "\<not> str_in old_ant c" and "\<not> str_in old_tuln c"
    and "re_sub_port c = c" and "\<not> str_in old_egrep c"
  shows "patcher c = (c, [])"
proof -
  have "count_str c old_echo0 = 0" "count_str c old_ant = 0" "count_str c old_tuln = 0"
    using assms(4,8,9) by (simp_all add: count_str_zero pats_not_Nil)
  then show ?thesis using assms by (simp add: patcher_def)
qed

text \<open>
  C1, as amended. After a run none of the patterns of the rules 2, 3, 4, 5, 6a, 6b,
  7a and 7b is left in the buffer, for every input text. So a second run on the patched
  result changes nothing and reports the no-op status whenever the patched result holds
  none of the three blocks of the rules 1a, 1b and 1c, which are replaced at their first
  occurrence only.
\<close>

theorem second_run_is_noop:
  "\<not> str_in old_echo0 (fst (patcher original)) \<and>
   findall_plusplus (fst (patcher original)) = [] \<and>
   \<not> str_in old_guard (fst (patcher original)) \<and>
   \<not> str_in old_sort (fst (patcher original)) \<and>
   \<not> str_in old_ant (fst (patcher original)) \<and>
   \<not> str_in old_tuln (fst (patcher original)) \<and>
   re_sub_port (fst (patcher original)) = fst (patcher original) \<and>
   \<not> str_in old_egrep (fst (patcher original)) \<and>
   (\<not> str_in old_1a (fst (patcher original)) \<and> \<not> str_in old_1b (fst (patcher original)) \<and>
    \<not> str_in old_1c (fst (patcher original)) \<longrightarrow>
      patcher (fst (patcher original)) = (fst (patcher original), []) \<and>
      (read_result w (target_of argv) = Inr (fst (patcher original)) \<longrightarrow>
         main argv w = \<lparr>files = w, stdout = [No_changes_needed], status = exit_ok\<rparr>))"
proof -
  note g = global_patterns_removed [of original]
  have "patcher (fst (patcher original)) = (fst (patcher original), []) \<and>
      (read_result w (target_of argv) = Inr (fst (patcher original)) \<longrightarrow>
         main argv w = \<lparr>files = w, stdout = [No_changes_needed], status = exit_ok\<rparr>)"
    if a: "\<not> str_in old_1a (fst (patcher original)) \<and>
      \<not> str_in old_1b (fst (patcher original)) \<and> \<not> str_in old_1c (fst (patcher original))"
  proof -
    have p: "patcher (fst (patcher original)) = (fst (patcher original), [])"
      using a g by (intro patcher_noop) simp_all
    have "main argv w = \<lparr>files = w, stdout = [No_changes_needed], status = exit_ok\<rparr>"
      if r: "read_result w (target_of argv) = Inr (fst (patcher original))"
      using main_readable [OF r] p by simp
    with p show ?thesis by blast
  qed
  with g show ?thesis by blast
qed

theorem second_run_is_noop_witness:
  "patcher (fst (patcher ''netstat -ant 2>/dev/null; ((n++))'')) =
     (fst (patcher ''netstat -ant 2>/dev/null; ((n++))''), [])"
proof -
  have "\<not> str_in old_1a (fst (patcher ''netstat -ant 2>/dev/null; ((n++))'')) \<and>
      \<not> str_in old_1b (fst (patcher ''netstat -ant 2>/dev/null; ((n++))'')) \<and>
      \<not> str_in old_1c (fst (patcher ''netstat -ant 2>/dev/null; ((n++))''))"
    by code_simp
  then show ?thesis
    using second_run_is_noop [of "''netstat -ant 2>/dev/null; ((n++))''"] by blast
qed

lemma run_1c_twice:
  "patcher (old_1c @ nl @ old_1c) = (new_1c @ nl @ old_1c, [label_1c])"
  by code_simp

lemma run_1c_again:
  "patcher (new_1c @ nl @ old_1c) = (new_1c @ nl @ new_1c, [label_1c])"
  by code_simp

lemma run_fi:
  "patcher (butlast (butlast old_1a) @ ''((fi++))'') =
     (butlast (butlast old_1a) @ ''fi=$((fi + 1))'', [label_3 ''fi'' 1])"
  by code_simp

lemma run_fi_again:
  "patcher (butlast (butlast old_1a) @ ''fi=$((fi + 1))'') =
     (new_1a @ ''=$((fi + 1))'', [label_1a])"
  by code_simp

text \<open>
  C1 as stated fails. A text with the block of rule 1c twice: the first run replaces
  the first block only, the second run replaces the other one. And a replacement can
  complete a block: in the block of rule 1a with its closing \<open>fi\<close> written as
  \<open>((fi++))\<close> the first run fixes the increment, and the result holds the block of rule
  1a, which the second run replaces.
\<close>

theorem second_run_patches_again:
  "snd (patcher (old_1c @ nl @ old_1c)) = [label_1c] \<and>
   snd (patcher (fst (patcher (old_1c @ nl @ old_1c)))) = [label_1c] \<and>
   snd (patcher (butlast (butlast old_1a) @ ''((fi++))'')) = [label_3 ''fi'' 1] \<and>
   snd (patcher (fst (patcher (butlast (butlast old_1a) @ ''((fi++))'')))) = [label_1a]"
  unfolding run_1c_twice run_fi fst_conv snd_conv run_1c_again run_fi_again by simp

end
